theory Spec2Isabelle
  imports Main "HOL-Library.Word"
begin

unbundle bit_operations_syntax

section \<open>VS1053 MIDI engine: data model\<close>

text \<open>
  A shallow embedding of \<^verbatim>\<open>src/MIDI_VS1053.h\<close> (class \<^verbatim>\<open>VS1053_MIDI\<close>).

  \<^item> \<^verbatim>\<open>uint8_t\<close>, \<^verbatim>\<open>uint16_t\<close>, \<^verbatim>\<open>uint32_t\<close> are words of that width: \<open>+\<close> and
    \<open>-\<close> wrap around, \<open>\<le>\<close> and \<open><\<close> compare unsigned.
  \<^item> \<^verbatim>\<open>enum class Instrument : uint8_t\<close> and \<^verbatim>\<open>enum class Note : uint8_t\<close> are
    represented by their underlying byte; the code only ever casts them to \<^verbatim>\<open>uint8_t\<close>.
  \<^item> A fixed-size C array is a function from the index; every access of the code is
    guarded by the array bound (or by the event count), and the model keeps those guards.
  \<^item> \<^verbatim>\<open>millis()\<close> is read once per call; its value is the parameter \<open>now\<close>.
  \<^item> \<^verbatim>\<open>sendMIDI\<close> hands one byte to the chip's data interface. The bytes handed over,
    oldest first, are the field \<open>midi_out\<close>; the DREQ/chip-select handshake belongs to
    the transport and the device is taken as ready.
  \<^item> \<^verbatim>\<open>Serial\<close> debug prints (only when \<open>debug\<close> is set) write to a separate console and
    touch no field of the object; they are left out.
\<close>

type_synonym u8 = "8 word"
type_synonym u16 = "16 word"
type_synonym u32 = "32 word"

abbreviation SEQ_MAX_TRACKS :: nat where "SEQ_MAX_TRACKS \<equiv> 8"
abbreviation SEQ_MAX_EVENTS :: nat where "SEQ_MAX_EVENTS \<equiv> 128"
abbreviation SEQ_MAX_VOICES :: nat where "SEQ_MAX_VOICES \<equiv> 32"

record SeqEvent =
  timeOffsetMs :: u32
  channel :: u8
  inst :: u8
  "note" :: u8
  velocity :: u8
  durationMs :: u32
  played :: bool

text \<open>\<^verbatim>\<open>struct ActiveVoice\<close>; its fields \<^verbatim>\<open>channel\<close> and \<^verbatim>\<open>note\<close> are \<open>vchannel\<close> and
  \<open>vnote\<close> here, since a record field is a constant of the theory.\<close>

record ActiveVoice =
  active :: bool
  vchannel :: u8
  vnote :: u8
  offTimeMs :: u32

record VS1053_MIDI =
  debug :: bool
  tracks :: "nat \<Rightarrow> nat \<Rightarrow> SeqEvent"
  trackEventCount :: "nat \<Rightarrow> u16"
  trackLoopLengthMs :: "nat \<Rightarrow> u32"
  sequencerRunning :: bool
  sequencerStartMs :: u32
  globalLoopMs :: u32
  voices :: "nat \<Rightarrow> ActiveVoice"
  lastChannelInstrument :: "nat \<Rightarrow> u8"
  midi_out :: "u8 list"

section \<open>Constructor\<close>

text \<open>The constructor leaves the event storage, the voices' channel, note and due time
  and the start timestamp as they are in memory; \<open>mem\<close> is that memory.\<close>

function ctor_tracks :: "nat \<Rightarrow> VS1053_MIDI \<Rightarrow> VS1053_MIDI" where
  "ctor_tracks t s =
     (if t < SEQ_MAX_TRACKS
      then ctor_tracks (t + 1)
             (s\<lparr>trackEventCount := (trackEventCount s)(t := 0),
                trackLoopLengthMs := (trackLoopLengthMs s)(t := 0)\<rparr>)
      else s)"
  by pat_completeness auto
termination
  by (relation "measure (\<lambda>(t, s). SEQ_MAX_TRACKS - t)") auto

function ctor_voices :: "nat \<Rightarrow> VS1053_MIDI \<Rightarrow> VS1053_MIDI" where
  "ctor_voices v s =
     (if v < SEQ_MAX_VOICES
      then ctor_voices (v + 1) (s\<lparr>voices := (voices s)(v := (voices s v)\<lparr>active := False\<rparr>)\<rparr>)
      else s)"
  by pat_completeness auto
termination
  by (relation "measure (\<lambda>(v, s). SEQ_MAX_VOICES - v)") auto

function ctor_channels :: "nat \<Rightarrow> VS1053_MIDI \<Rightarrow> VS1053_MIDI" where
  "ctor_channels c s =
     (if c < 16
      then ctor_channels (c + 1) (s\<lparr>lastChannelInstrument := (lastChannelInstrument s)(c := 255)\<rparr>)
      else s)"
  by pat_completeness auto
termination
  by (relation "measure (\<lambda>(c, s). 16 - c)") auto

definition VS1053_MIDI_new :: "VS1053_MIDI \<Rightarrow> VS1053_MIDI" where
  "VS1053_MIDI_new mem =
     (ctor_channels 0 (ctor_voices 0 (ctor_tracks 0 mem)))
       \<lparr>sequencerRunning := False, globalLoopMs := 0, debug := False\<rparr>"

definition setDebug :: "bool \<Rightarrow> VS1053_MIDI \<Rightarrow> VS1053_MIDI" where
  "setDebug en s = s\<lparr>debug := en\<rparr>"

section \<open>Immediate MIDI helpers\<close>

definition sendMIDI :: "u8 \<Rightarrow> VS1053_MIDI \<Rightarrow> VS1053_MIDI" where
  "sendMIDI data s = s\<lparr>midi_out := midi_out s @ [data]\<rparr>"

definition talkMIDI :: "u8 \<Rightarrow> u8 \<Rightarrow> u8 \<Rightarrow> VS1053_MIDI \<Rightarrow> VS1053_MIDI" where
  "talkMIDI cmd d1 d2 s =
     (let s1 = sendMIDI cmd s;
          s2 = sendMIDI d1 s1
      in if cmd AND 0xF0 \<noteq> 0xC0 then sendMIDI d2 s2 else s2)"

definition setInstrument :: "u8 \<Rightarrow> u8 \<Rightarrow> VS1053_MIDI \<Rightarrow> VS1053_MIDI" where
  "setInstrument chan instr s =
     (let ch = chan AND 0x0F;
          instVal = instr
      in if lastChannelInstrument s (unat ch) \<noteq> instVal
         then (let s1 = talkMIDI (0xC0 OR ch) instVal 0 s
               in s1\<lparr>lastChannelInstrument := (lastChannelInstrument s1)(unat ch := instVal)\<rparr>)
         else s)"

definition noteOn :: "u8 \<Rightarrow> u8 \<Rightarrow> u8 \<Rightarrow> VS1053_MIDI \<Rightarrow> VS1053_MIDI" where
  "noteOn chan n vel s = talkMIDI (0x90 OR (chan AND 0x0F)) n vel s"

definition noteOff :: "u8 \<Rightarrow> u8 \<Rightarrow> u8 \<Rightarrow> VS1053_MIDI \<Rightarrow> VS1053_MIDI" where
  "noteOff chan n vel s = talkMIDI (0x80 OR (chan AND 0x0F)) n vel s"

text \<open>\<^verbatim>\<open>scheduleVoiceOff\<close>: the loop over the voice slots, from slot \<open>v\<close> on; the
  \<^verbatim>\<open>return\<close> inside the loop ends it at the first inactive slot.\<close>

function scheduleVoiceOff_from :: "nat \<Rightarrow> u8 \<Rightarrow> u8 \<Rightarrow> u32 \<Rightarrow> VS1053_MIDI \<Rightarrow> VS1053_MIDI" where
  "scheduleVoiceOff_from v chan n off s =
     (if v < SEQ_MAX_VOICES
      then (if \<not> active (voices s v)
            then s\<lparr>voices := (voices s)
                     (v := (voices s v)\<lparr>active := True, vchannel := chan, vnote := n,
                                        offTimeMs := off\<rparr>)\<rparr>
            else scheduleVoiceOff_from (v + 1) chan n off s)
      else s)"
  by pat_completeness auto
termination
  by (relation "measure (\<lambda>(v, chan, n, off, s). SEQ_MAX_VOICES - v)") auto

definition scheduleVoiceOff :: "u8 \<Rightarrow> u8 \<Rightarrow> u32 \<Rightarrow> VS1053_MIDI \<Rightarrow> VS1053_MIDI" where
  "scheduleVoiceOff chan n off s = scheduleVoiceOff_from 0 chan n off s"

text \<open>\<^verbatim>\<open>playNoteAsync(channel, inst, note, durationMs, vel)\<close> and the overload without
  the instrument.\<close>

definition playNoteAsync :: "u32 \<Rightarrow> u8 \<Rightarrow> u8 \<Rightarrow> u8 \<Rightarrow> u32 \<Rightarrow> u8 \<Rightarrow> VS1053_MIDI \<Rightarrow> VS1053_MIDI" where
  "playNoteAsync now chan instr n dur vel s =
     scheduleVoiceOff chan n (now + dur) (noteOn chan n vel (setInstrument chan instr s))"

definition playNoteAsync2 :: "u32 \<Rightarrow> u8 \<Rightarrow> u8 \<Rightarrow> u32 \<Rightarrow> u8 \<Rightarrow> VS1053_MIDI \<Rightarrow> VS1053_MIDI" where
  "playNoteAsync2 now chan n dur vel s =
     scheduleVoiceOff chan n (now + dur) (noteOn chan n vel s)"

section \<open>Pattern store\<close>

definition clearTrack :: "u8 \<Rightarrow> VS1053_MIDI \<Rightarrow> VS1053_MIDI" where
  "clearTrack track s =
     (if unat track \<ge> SEQ_MAX_TRACKS then s
      else s\<lparr>trackEventCount := (trackEventCount s)(unat track := 0),
             trackLoopLengthMs := (trackLoopLengthMs s)(unat track := 0)\<rparr>)"

definition addEvent ::
  "u8 \<Rightarrow> u32 \<Rightarrow> u8 \<Rightarrow> u8 \<Rightarrow> u8 \<Rightarrow> u8 \<Rightarrow> u32 \<Rightarrow> VS1053_MIDI \<Rightarrow> bool \<times> VS1053_MIDI" where
  "addEvent track off chan instr n vel dur s =
     (if unat track \<ge> SEQ_MAX_TRACKS then (False, s)
      else if unat (trackEventCount s (unat track)) \<ge> SEQ_MAX_EVENTS then (False, s)
      else
        (let t = unat track;
             i = unat (trackEventCount s t);
             s1 = s\<lparr>trackEventCount := (trackEventCount s)(t := trackEventCount s t + 1)\<rparr>;
             s2 = s1\<lparr>tracks := (tracks s1)
                       (t := (tracks s1 t)
                          (i := (tracks s1 t i)\<lparr>timeOffsetMs := off, channel := chan, inst := instr,
                                                note := n, velocity := vel, durationMs := dur,
                                                played := False\<rparr>))\<rparr>;
             s3 = (if off + dur > trackLoopLengthMs s2 t
                   then s2\<lparr>trackLoopLengthMs := (trackLoopLengthMs s2)(t := off + dur)\<rparr>
                   else s2)
         in (True, s3)))"

subsection \<open>Control-change helpers\<close>

text \<open>\<^verbatim>\<open>setPan\<close>, \<^verbatim>\<open>setReverb\<close>, \<^verbatim>\<open>setMasterVolume\<close> and \<^verbatim>\<open>setChannelVolume\<close> clamp the
  value to 127 and send one control change. \<^verbatim>\<open>begin\<close> and \<^verbatim>\<open>setBassBoost\<close> only drive
  the pins and the chip's control registers and touch no field of the object; the composer
  classes only call \<^verbatim>\<open>clearTrack\<close>, \<^verbatim>\<open>addEvent\<close> and \<^verbatim>\<open>startSequencer\<close>.\<close>

definition setPan :: "u8 \<Rightarrow> u8 \<Rightarrow> VS1053_MIDI \<Rightarrow> VS1053_MIDI" where
  "setPan chan pan s =
     (let pan1 = (if pan > 127 then 127 else pan)
      in talkMIDI (0xB0 OR (chan AND 0x0F)) 10 pan1 s)"

definition setReverb :: "u8 \<Rightarrow> VS1053_MIDI \<Rightarrow> VS1053_MIDI" where
  "setReverb reverb s =
     (let reverb1 = (if reverb > 127 then 127 else reverb)
      in talkMIDI 0xB0 91 reverb1 s)"

definition setMasterVolume :: "u8 \<Rightarrow> VS1053_MIDI \<Rightarrow> VS1053_MIDI" where
  "setMasterVolume volume s =
     (let volume1 = (if volume > 127 then 127 else volume)
      in talkMIDI 0xB0 7 volume1 s)"

definition setChannelVolume :: "u8 \<Rightarrow> u8 \<Rightarrow> VS1053_MIDI \<Rightarrow> VS1053_MIDI" where
  "setChannelVolume chan volume s =
     (let volume1 = (if volume > 127 then 127 else volume)
      in talkMIDI (0xB0 OR (chan AND 0x0F)) 7 volume1 s)"

section \<open>Sequencer\<close>

text \<open>\<^verbatim>\<open>startSequencer\<close>: the inner loop re-reads \<^verbatim>\<open>trackEventCount[t]\<close> at every
  iteration; the count is a 16-bit value, which bounds the loop.\<close>

function startSequencer_events :: "nat \<Rightarrow> nat \<Rightarrow> VS1053_MIDI \<Rightarrow> VS1053_MIDI" where
  "startSequencer_events t i s =
     (if i < unat (trackEventCount s t)
      then startSequencer_events t (i + 1)
             (s\<lparr>tracks := (tracks s)(t := (tracks s t)(i := (tracks s t i)\<lparr>played := False\<rparr>))\<rparr>)
      else s)"
  by pat_completeness auto
termination
proof (relation "measure (\<lambda>(t, i, s). 65536 - i)")
  show "wf (measure (\<lambda>(t, i, s). 65536 - i))" by simp
next
  fix t i :: nat and s :: VS1053_MIDI
  assume "i < unat (trackEventCount s t)"
  moreover have "unat (trackEventCount s t) < 65536"
    using unsigned_less [of "trackEventCount s t", where ?'a = nat] by simp
  ultimately show
    "((t, i + 1, s\<lparr>tracks := (tracks s)(t := (tracks s t)(i := (tracks s t i)\<lparr>played := False\<rparr>))\<rparr>),
      (t, i, s)) \<in> measure (\<lambda>(t, i, s). 65536 - i)"
    by simp
qed

function startSequencer_tracks :: "nat \<Rightarrow> VS1053_MIDI \<Rightarrow> VS1053_MIDI" where
  "startSequencer_tracks t s =
     (if t < SEQ_MAX_TRACKS
      then startSequencer_tracks (t + 1) (startSequencer_events t 0 s)
      else s)"
  by pat_completeness auto
termination
  by (relation "measure (\<lambda>(t, s). SEQ_MAX_TRACKS - t)") auto

definition startSequencer :: "u32 \<Rightarrow> u32 \<Rightarrow> VS1053_MIDI \<Rightarrow> VS1053_MIDI" where
  "startSequencer now loopMs s =
     startSequencer_tracks 0
       (s\<lparr>sequencerStartMs := now, sequencerRunning := True, globalLoopMs := loopMs\<rparr>)"

definition stopSequencer :: "VS1053_MIDI \<Rightarrow> VS1053_MIDI" where
  "stopSequencer s = s\<lparr>sequencerRunning := False\<rparr>"

subsection \<open>update\<close>

text \<open>The first loop of \<^verbatim>\<open>update\<close>: scheduled note-offs. \<^verbatim>\<open>noteOff\<close> is called with
  its default velocity 64.\<close>

definition voice_off_step :: "u32 \<Rightarrow> nat \<Rightarrow> VS1053_MIDI \<Rightarrow> VS1053_MIDI" where
  "voice_off_step now v s =
     (if active (voices s v) \<and> now \<ge> offTimeMs (voices s v)
      then (let s1 = noteOff (vchannel (voices s v)) (vnote (voices s v)) 64 s
            in s1\<lparr>voices := (voices s1)(v := (voices s1 v)\<lparr>active := False\<rparr>)\<rparr>)
      else s)"

function update_voice_offs :: "nat \<Rightarrow> u32 \<Rightarrow> VS1053_MIDI \<Rightarrow> VS1053_MIDI" where
  "update_voice_offs v now s =
     (if v < SEQ_MAX_VOICES then update_voice_offs (v + 1) now (voice_off_step now v s) else s)"
  by pat_completeness auto
termination
  by (relation "measure (\<lambda>(v, now, s). SEQ_MAX_VOICES - v)") auto

text \<open>The pattern length: the explicit loop length, or the longest track, or 1.\<close>

function longest_track :: "nat \<Rightarrow> u32 \<Rightarrow> VS1053_MIDI \<Rightarrow> u32" where
  "longest_track t patternLength s =
     (if t < SEQ_MAX_TRACKS
      then longest_track (t + 1)
             (if trackLoopLengthMs s t > patternLength then trackLoopLengthMs s t
              else patternLength) s
      else patternLength)"
  by pat_completeness auto
termination
  by (relation "measure (\<lambda>(t, p, s). SEQ_MAX_TRACKS - t)") auto

definition patternLength :: "VS1053_MIDI \<Rightarrow> u32" where
  "patternLength s =
     (if globalLoopMs s > 0 then globalLoopMs s
      else (let p = longest_track 0 0 s in if p = 0 then 1 else p))"

text \<open>\<^verbatim>\<open>elapsed % patternLength\<close>: the remainder of unsigned 32-bit values. A zero
  divisor is undefined behaviour in C++ (a trap on the target); here it is \<open>None\<close>.\<close>

definition umod32 :: "u32 \<Rightarrow> u32 \<Rightarrow> u32 option" where
  "umod32 a b = (if b = 0 then None else Some (a mod b))"

text \<open>The body of the event loop, for the event \<open>eidx\<close> of track \<open>t\<close>.\<close>

definition update_event :: "u32 \<Rightarrow> u32 \<Rightarrow> nat \<Rightarrow> nat \<Rightarrow> VS1053_MIDI \<Rightarrow> VS1053_MIDI" where
  "update_event now posInPattern t eidx s =
     (let ev = tracks s t eidx
      in if \<not> played ev \<and> timeOffsetMs ev \<le> posInPattern
         then (let s1 = setInstrument (channel ev) (inst ev) s;
                   s2 = noteOn (channel ev) (note ev) (velocity ev) s1;
                   s3 = scheduleVoiceOff (channel ev) (note ev) (now + durationMs ev) s2
               in s3\<lparr>tracks := (tracks s3)(t := (tracks s3 t)(eidx := (tracks s3 t eidx)\<lparr>played := True\<rparr>))\<rparr>)
         else if played ev \<and> timeOffsetMs ev > posInPattern
         then s\<lparr>tracks := (tracks s)(t := (tracks s t)(eidx := (tracks s t eidx)\<lparr>played := False\<rparr>))\<rparr>
         else s)"

function update_events :: "u32 \<Rightarrow> u32 \<Rightarrow> nat \<Rightarrow> nat \<Rightarrow> VS1053_MIDI \<Rightarrow> VS1053_MIDI" where
  "update_events now posInPattern t eidx s =
     (if eidx < unat (trackEventCount s t)
      then update_events now posInPattern t (eidx + 1) (update_event now posInPattern t eidx s)
      else s)"
  by pat_completeness auto
termination
proof (relation "measure (\<lambda>(now, pos, t, eidx, s). 65536 - eidx)")
  show "wf (measure (\<lambda>(now, pos, t, eidx, s). 65536 - eidx))" by simp
next
  fix now pos :: u32 and t eidx :: nat and s :: VS1053_MIDI
  assume "eidx < unat (trackEventCount s t)"
  moreover have "unat (trackEventCount s t) < 65536"
    using unsigned_less [of "trackEventCount s t", where ?'a = nat] by simp
  ultimately show
    "((now, pos, t, eidx + 1, update_event now pos t eidx s), (now, pos, t, eidx, s))
       \<in> measure (\<lambda>(now, pos, t, eidx, s). 65536 - eidx)"
    by simp
qed

function update_tracks :: "u32 \<Rightarrow> u32 \<Rightarrow> nat \<Rightarrow> VS1053_MIDI \<Rightarrow> VS1053_MIDI" where
  "update_tracks now posInPattern t s =
     (if t < SEQ_MAX_TRACKS
      then update_tracks now posInPattern (t + 1) (update_events now posInPattern t 0 s)
      else s)"
  by pat_completeness auto
termination
  by (relation "measure (\<lambda>(now, pos, t, s). SEQ_MAX_TRACKS - t)") auto

definition update :: "u32 \<Rightarrow> VS1053_MIDI \<Rightarrow> VS1053_MIDI option" where
  "update now s =
     (let s1 = update_voice_offs 0 now s
      in if \<not> sequencerRunning s1 then Some s1
         else (let elapsed = now - sequencerStartMs s1
               in case umod32 elapsed (patternLength s1) of
                    None \<Rightarrow> None
                  | Some posInPattern \<Rightarrow> Some (update_tracks now posInPattern 0 s1)))"

section \<open>Notions used in the statements\<close>

text \<open>
  \<open>expireDue\<close> is the voice-pool expiry as the specification words it (every active
  slot whose due time is \<open>\<le> now\<close> gets a note-off and is deactivated, in slot order); it is
  compared below with the loop of the code, \<open>update_voice_offs\<close>. \<open>fire_event\<close> names the
  three calls by which \<^verbatim>\<open>update\<close> fires an event (\<^verbatim>\<open>setInstrument\<close>, \<^verbatim>\<open>noteOn\<close>,
  \<^verbatim>\<open>scheduleVoiceOff\<close>), \<open>event_fires\<close> the condition of the firing branch of the event
  loop, \<open>next_played\<close> the flag the loop body leaves in an event, and \<open>stored_events\<close> the
  stored events in the order the loops visit them: track by track, and in a track in the
  order they were added.
\<close>

definition voice_due :: "u32 \<Rightarrow> ActiveVoice \<Rightarrow> bool" where
  "voice_due now a = (active a \<and> offTimeMs a \<le> now)"

definition note_off_bytes :: "ActiveVoice \<Rightarrow> u8 list" where
  "note_off_bytes a = [0x80 OR (vchannel a AND 0x0F), vnote a, 64]"

definition expireDue :: "u32 \<Rightarrow> VS1053_MIDI \<Rightarrow> VS1053_MIDI" where
  "expireDue now s =
     s\<lparr>voices := (\<lambda>v. if v < SEQ_MAX_VOICES \<and> voice_due now (voices s v)
                      then (voices s v)\<lparr>active := False\<rparr> else voices s v),
       midi_out := midi_out s @
          concat (map (\<lambda>v. note_off_bytes (voices s v))
                    (filter (\<lambda>v. voice_due now (voices s v)) [0..<SEQ_MAX_VOICES]))\<rparr>"

definition fire_event :: "u32 \<Rightarrow> SeqEvent \<Rightarrow> VS1053_MIDI \<Rightarrow> VS1053_MIDI" where
  "fire_event now ev s =
     scheduleVoiceOff (channel ev) (note ev) (now + durationMs ev)
       (noteOn (channel ev) (note ev) (velocity ev)
          (setInstrument (channel ev) (inst ev) s))"

definition event_fires :: "u32 \<Rightarrow> SeqEvent \<Rightarrow> bool" where
  "event_fires pos ev = (\<not> played ev \<and> timeOffsetMs ev \<le> pos)"

definition next_played :: "u32 \<Rightarrow> SeqEvent \<Rightarrow> bool" where
  "next_played pos ev =
     (if \<not> played ev \<and> timeOffsetMs ev \<le> pos then True
      else if played ev \<and> timeOffsetMs ev > pos then False
      else played ev)"

definition stored_events :: "VS1053_MIDI \<Rightarrow> (nat \<times> nat) list" where
  "stored_events s =
     concat (map (\<lambda>t. map (Pair t) [0..<unat (trackEventCount s t)]) [0..<SEQ_MAX_TRACKS])"

text \<open>
  \<open>derived_length\<close> is the derived loop length as the specification words it: the maximum
  of \<open>offset + duration\<close> over the stored events of a track (the latest event end time), 0
  for an empty track; the sum is the plain sum of the two values. \<open>wrapped_length\<close> is the
  same maximum over the sums as \<^verbatim>\<open>addEvent\<close> computes them, in \<^verbatim>\<open>uint32_t\<close>.
\<close>

definition derived_length :: "VS1053_MIDI \<Rightarrow> nat \<Rightarrow> nat" where
  "derived_length s t =
     Max (set (0 # map (\<lambda>i. unat (timeOffsetMs (tracks s t i)) + unat (durationMs (tracks s t i)))
                     [0..<unat (trackEventCount s t)]))"

definition wrapped_length :: "VS1053_MIDI \<Rightarrow> nat \<Rightarrow> u32" where
  "wrapped_length s t =
     Max (set (0 # map (\<lambda>i. timeOffsetMs (tracks s t i) + durationMs (tracks s t i))
                     [0..<unat (trackEventCount s t)]))"

text \<open>
  The public calls that change the engine, as values, and a run of calls from a state.
  \<open>now\<close> is what \<^verbatim>\<open>millis()\<close> returns during the call. \<open>call\<close> is \<open>None\<close> only where
  the C++ would divide by zero.
\<close>

datatype api_call =
    SetDebug bool
  | SetInstrument u8 u8
  | NoteOn u8 u8 u8
  | NoteOff u8 u8 u8
  | PlayNoteAsync u32 u8 u8 u8 u32 u8
  | PlayNoteAsync2 u32 u8 u8 u32 u8
  | ClearTrack u8
  | AddEvent u8 u32 u8 u8 u8 u8 u32
  | SetPan u8 u8
  | SetReverb u8
  | SetMasterVolume u8
  | SetChannelVolume u8 u8
  | StartSequencer u32 u32
  | StopSequencer
  | Update u32

fun call :: "api_call \<Rightarrow> VS1053_MIDI \<Rightarrow> VS1053_MIDI option" where
  "call (SetDebug en) s = Some (setDebug en s)"
| "call (SetInstrument chan instr) s = Some (setInstrument chan instr s)"
| "call (NoteOn chan n vel) s = Some (noteOn chan n vel s)"
| "call (NoteOff chan n vel) s = Some (noteOff chan n vel s)"
| "call (PlayNoteAsync now chan instr n dur vel) s = Some (playNoteAsync now chan instr n dur vel s)"
| "call (PlayNoteAsync2 now chan n dur vel) s = Some (playNoteAsync2 now chan n dur vel s)"
| "call (ClearTrack track) s = Some (clearTrack track s)"
| "call (AddEvent track off chan instr n vel dur) s = Some (snd (addEvent track off chan instr n vel dur s))"
| "call (SetPan chan pan) s = Some (setPan chan pan s)"
| "call (SetReverb reverb) s = Some (setReverb reverb s)"
| "call (SetMasterVolume volume) s = Some (setMasterVolume volume s)"
| "call (SetChannelVolume chan volume) s = Some (setChannelVolume chan volume s)"
| "call (StartSequencer now loopMs) s = Some (startSequencer now loopMs s)"
| "call StopSequencer s = Some (stopSequencer s)"
| "call (Update now) s = update now s"

fun run :: "api_call list \<Rightarrow> VS1053_MIDI \<Rightarrow> VS1053_MIDI option" where
  "run [] s = Some s"
| "run (c # cs) s = (case call c s of None \<Rightarrow> None | Some s' \<Rightarrow> run cs s')"

subsection \<open>Concrete engines\<close>

text \<open>
  \<open>zero_mem\<close> is an all-zero object memory; \<open>fresh_engine\<close> the engine the constructor makes
  of it. \<open>one_event\<close>: one event (offset 0, duration 100, channel 0, instrument 0, note 60,
  velocity 100) on track 0, started at time 1000 with loop length 200. \<open>two_events\<close>: events
  (offset 0, duration 500, note 60) and (offset 250, duration 250, note 64) on track 0,
  started at time 1000 with automatic loop length. \<open>late_event\<close>: one event at offset 300,
  started with loop length 200. \<open>two_voices\<close> has the voice slots 0 and 1 reserved,
  \<open>full_pool\<close> all 32, \<open>full_track\<close> has 128 events on every track, and \<open>played_mem\<close> is a
  running engine with two events per track, all flagged as played. \<open>overflow_event\<close>: track
  0 cleared, then one event at offset 4294967295 with duration 2 added.
\<close>

definition zero_mem :: VS1053_MIDI where
  "zero_mem =
     \<lparr>debug = False,
      tracks = (\<lambda>t i. \<lparr>timeOffsetMs = 0, channel = 0, inst = 0, note = 0, velocity = 0,
                         durationMs = 0, played = False\<rparr>),
      trackEventCount = (\<lambda>t. 0),
      trackLoopLengthMs = (\<lambda>t. 0),
      sequencerRunning = False,
      sequencerStartMs = 0,
      globalLoopMs = 0,
      voices = (\<lambda>v. \<lparr>active = False, vchannel = 0, vnote = 0, offTimeMs = 0\<rparr>),
      lastChannelInstrument = (\<lambda>c. 0),
      midi_out = []\<rparr>"

definition fresh_engine :: VS1053_MIDI where
  "fresh_engine = VS1053_MIDI_new zero_mem"

definition one_event :: VS1053_MIDI where
  "one_event = startSequencer 1000 200 (snd (addEvent 0 0 0 0 60 100 100 fresh_engine))"

definition two_events :: VS1053_MIDI where
  "two_events =
     startSequencer 1000 0
       (snd (addEvent 0 250 0 0 64 100 250 (snd (addEvent 0 0 0 0 60 100 500 fresh_engine))))"

definition late_event :: VS1053_MIDI where
  "late_event = startSequencer 1000 200 (snd (addEvent 0 300 0 0 60 100 100 fresh_engine))"

definition two_voices :: VS1053_MIDI where
  "two_voices = scheduleVoiceOff 1 61 2000 (scheduleVoiceOff 0 60 1000 fresh_engine)"

definition full_pool :: VS1053_MIDI where
  "full_pool =
     fresh_engine\<lparr>voices := (\<lambda>v. \<lparr>active = True, vchannel = 0, vnote = 60, offTimeMs = 5000\<rparr>)\<rparr>"

definition full_track :: VS1053_MIDI where
  "full_track = fresh_engine\<lparr>trackEventCount := (\<lambda>t. 128)\<rparr>"

definition played_mem :: VS1053_MIDI where
  "played_mem =
     zero_mem\<lparr>tracks := (\<lambda>t i. \<lparr>timeOffsetMs = 0, channel = 0, inst = 0, note = 60, velocity = 100,
                                 durationMs = 10, played = True\<rparr>),
              trackEventCount := (\<lambda>t. 2),
              sequencerRunning := True\<rparr>"

definition overflow_event :: VS1053_MIDI where
  "overflow_event = snd (addEvent 0 4294967295 0 0 60 100 2 (clearTrack 0 fresh_engine))"

definition demo_calls :: "api_call list" where
  "demo_calls =
     [AddEvent 0 0 0 0 60 100 500, AddEvent 0 250 0 0 64 100 250, AddEvent 9 0 0 0 60 100 9000,
      SetPan 0 200, StartSequencer 1000 0, Update 1000, Update 1250,
      PlayNoteAsync 1300 1 5 70 100 110, Update 1500]"

section \<open>Closed forms of the loops\<close>

declare ctor_tracks.simps [simp del] ctor_voices.simps [simp del] ctor_channels.simps [simp del]
  scheduleVoiceOff_from.simps [simp del] startSequencer_events.simps [simp del]
  startSequencer_tracks.simps [simp del] update_voice_offs.simps [simp del]
  longest_track.simps [simp del] update_events.simps [simp del] update_tracks.simps [simp del]

lemma status_nibble: "((hi::u8) OR (ch AND 0x0F)) AND 0xF0 = hi AND 0xF0"
proof -
  have "(ch AND 0x0F) AND 0xF0 = ch AND (0x0F AND 0xF0)"
    by (simp only: and.assoc)
  also have "\<dots> = 0" by simp
  finally show ?thesis by (simp add: bit.conj_disj_distrib2)
qed

lemma talkMIDI_eq:
  "talkMIDI cmd d1 d2 s =
     s\<lparr>midi_out := midi_out s @ (if cmd AND 0xF0 \<noteq> 0xC0 then [cmd, d1, d2] else [cmd, d1])\<rparr>"
  by (simp add: talkMIDI_def sendMIDI_def Let_def)

lemma noteOn_eq:
  "noteOn chan n vel s = s\<lparr>midi_out := midi_out s @ [0x90 OR (chan AND 0x0F), n, vel]\<rparr>"
  by (simp add: noteOn_def talkMIDI_eq status_nibble)

lemma noteOff_eq:
  "noteOff chan n vel s = s\<lparr>midi_out := midi_out s @ [0x80 OR (chan AND 0x0F), n, vel]\<rparr>"
  by (simp add: noteOff_def talkMIDI_eq status_nibble)

lemma setInstrument_eq:
  "setInstrument chan instr s =
     (if lastChannelInstrument s (unat (chan AND 0x0F)) \<noteq> instr
      then s\<lparr>midi_out := midi_out s @ [0xC0 OR (chan AND 0x0F), instr],
             lastChannelInstrument := (lastChannelInstrument s)(unat (chan AND 0x0F) := instr)\<rparr>
      else s)"
  by (simp add: setInstrument_def talkMIDI_eq status_nibble Let_def)

lemma scheduleVoiceOff_from_eq:
  "scheduleVoiceOff_from v chan n off s =
     (case find (\<lambda>w. \<not> active (voices s w)) [v..<SEQ_MAX_VOICES] of
        None \<Rightarrow> s
      | Some w \<Rightarrow> s\<lparr>voices := (voices s)(w := (voices s w)\<lparr>active := True, vchannel := chan, vnote := n,
                                        offTimeMs := off\<rparr>)\<rparr>)"
proof (induction v chan n off s rule: scheduleVoiceOff_from.induct)
  case (1 v chan n off s)
  show ?case
  proof (cases "v < SEQ_MAX_VOICES")
    case False
    then show ?thesis by (simp add: scheduleVoiceOff_from.simps [of v])
  next
    case True
    then have upt: "[v..<SEQ_MAX_VOICES] = v # [v + 1..<SEQ_MAX_VOICES]"
      by (simp add: upt_conv_Cons)
    show ?thesis
    proof (cases "active (voices s v)")
      case False
      with True show ?thesis
        by (simp add: scheduleVoiceOff_from.simps [of v] upt)
    next
      case act: True
      with True "1.IH" show ?thesis
        by (simp add: scheduleVoiceOff_from.simps [of v] upt)
    qed
  qed
qed

lemma voice_off_step_eq:
  "voice_off_step now v s =
     (if voice_due now (voices s v)
      then s\<lparr>midi_out := midi_out s @ note_off_bytes (voices s v),
             voices := (voices s)(v := (voices s v)\<lparr>active := False\<rparr>)\<rparr>
      else s)"
  by (simp add: voice_off_step_def voice_due_def note_off_bytes_def noteOff_eq Let_def)

lemma update_voice_offs_gen:
  "update_voice_offs v now s =
     s\<lparr>voices := (\<lambda>w. if v \<le> w \<and> w < SEQ_MAX_VOICES \<and> voice_due now (voices s w)
                      then (voices s w)\<lparr>active := False\<rparr> else voices s w),
       midi_out := midi_out s @
          concat (map (\<lambda>w. note_off_bytes (voices s w))
                    (filter (\<lambda>w. voice_due now (voices s w)) [v..<SEQ_MAX_VOICES]))\<rparr>"
proof (induction v now s rule: update_voice_offs.induct)
  case (1 v now s)
  show ?case
  proof (cases "v < SEQ_MAX_VOICES")
    case False
    then have "(\<lambda>w. if v \<le> w \<and> w < SEQ_MAX_VOICES \<and> voice_due now (voices s w)
                      then (voices s w)\<lparr>active := False\<rparr> else voices s w) = voices s"
      by (auto simp add: fun_eq_iff)
    with False show ?thesis
      by (simp add: update_voice_offs.simps [of v])
  next
    case True
    then have upt: "[v..<SEQ_MAX_VOICES] = v # [v + 1..<SEQ_MAX_VOICES]"
      by (simp add: upt_conv_Cons)
    have later: "\<And>w. w \<in> set [v + 1..<SEQ_MAX_VOICES] \<Longrightarrow>
        voices (voice_off_step now v s) w = voices s w"
      by (simp add: voice_off_step_eq)
    have flt: "filter (\<lambda>w. voice_due now (voices (voice_off_step now v s) w)) [v + 1..<SEQ_MAX_VOICES]
             = filter (\<lambda>w. voice_due now (voices s w)) [v + 1..<SEQ_MAX_VOICES]"
      by (rule filter_cong) (simp_all add: later)
    have mp: "map (\<lambda>w. note_off_bytes (voices (voice_off_step now v s) w))
                 (filter (\<lambda>w. voice_due now (voices s w)) [v + 1..<SEQ_MAX_VOICES])
            = map (\<lambda>w. note_off_bytes (voices s w))
                 (filter (\<lambda>w. voice_due now (voices s w)) [v + 1..<SEQ_MAX_VOICES])"
      by (rule map_cong) (simp_all add: later)
    let ?s' = "voice_off_step now v s"
    have vs: "(\<lambda>w. if v + 1 \<le> w \<and> w < SEQ_MAX_VOICES \<and> voice_due now (voices ?s' w)
                   then (voices ?s' w)\<lparr>active := False\<rparr> else voices ?s' w)
            = (\<lambda>w. if v \<le> w \<and> w < SEQ_MAX_VOICES \<and> voice_due now (voices s w)
                   then (voices s w)\<lparr>active := False\<rparr> else voices s w)"
    proof (rule ext)
      fix w
      show "(if v + 1 \<le> w \<and> w < SEQ_MAX_VOICES \<and> voice_due now (voices ?s' w)
                   then (voices ?s' w)\<lparr>active := False\<rparr> else voices ?s' w)
            = (if v \<le> w \<and> w < SEQ_MAX_VOICES \<and> voice_due now (voices s w)
                   then (voices s w)\<lparr>active := False\<rparr> else voices s w)"
        using True by (cases "w = v") (auto simp add: voice_off_step_eq)
    qed
    have mo: "midi_out ?s' = midi_out s @ (if voice_due now (voices s v) then note_off_bytes (voices s v) else [])"
      by (simp add: voice_off_step_eq)
    have rest: "?s'\<lparr>voices := vs', midi_out := m'\<rparr> = s\<lparr>voices := vs', midi_out := m'\<rparr>" for vs' m'
      by (simp add: voice_off_step_eq)
    have "update_voice_offs v now s = update_voice_offs (v + 1) now ?s'"
      using True by (simp add: update_voice_offs.simps [of v])
    also have "\<dots> = ?s'\<lparr>voices := (\<lambda>w. if v + 1 \<le> w \<and> w < SEQ_MAX_VOICES \<and> voice_due now (voices ?s' w)
                      then (voices ?s' w)\<lparr>active := False\<rparr> else voices ?s' w),
       midi_out := midi_out ?s' @
          concat (map (\<lambda>w. note_off_bytes (voices ?s' w))
                    (filter (\<lambda>w. voice_due now (voices ?s' w)) [v + 1..<SEQ_MAX_VOICES]))\<rparr>"
      by (rule "1.IH" [OF True])
    also have "\<dots> = s\<lparr>voices := (\<lambda>w. if v \<le> w \<and> w < SEQ_MAX_VOICES \<and> voice_due now (voices s w)
                      then (voices s w)\<lparr>active := False\<rparr> else voices s w),
       midi_out := midi_out s @
          concat (map (\<lambda>w. note_off_bytes (voices s w))
                    (filter (\<lambda>w. voice_due now (voices s w)) [v..<SEQ_MAX_VOICES]))\<rparr>"
      unfolding vs rest flt mp mo upt by simp
    finally show ?thesis .
  qed
qed

lemma update_voice_offs_eq: "update_voice_offs 0 now s = expireDue now s"
  by (simp add: update_voice_offs_gen expireDue_def)

lemma Suc_le_split: "(Suc i \<le> j) = (i \<le> j \<and> j \<noteq> i)"
  by auto

lemma startSequencer_events_eq:
  "startSequencer_events t i s =
     s\<lparr>tracks := (tracks s)
          (t := (\<lambda>j. if i \<le> j \<and> j < unat (trackEventCount s t)
                      then (tracks s t j)\<lparr>played := False\<rparr> else tracks s t j))\<rparr>"
proof (induction t i s rule: startSequencer_events.induct)
  case (1 t i s)
  show ?case
  proof (cases "i < unat (trackEventCount s t)")
    case False
    then show ?thesis
      by (intro VS1053_MIDI.equality)
         (auto simp add: startSequencer_events.simps [of t i] fun_eq_iff)
  next
    case True
    let ?s' = "s\<lparr>tracks := (tracks s)(t := (tracks s t)(i := (tracks s t i)\<lparr>played := False\<rparr>))\<rparr>"
    have "startSequencer_events t i s = startSequencer_events t (i + 1) ?s'"
      using True by (simp add: startSequencer_events.simps [of t i])
    also have "\<dots> = ?s'\<lparr>tracks := (tracks ?s')
          (t := (\<lambda>j. if i + 1 \<le> j \<and> j < unat (trackEventCount ?s' t)
                      then (tracks ?s' t j)\<lparr>played := False\<rparr> else tracks ?s' t j))\<rparr>"
      by (rule "1.IH" [OF True])
    also have "\<dots> = s\<lparr>tracks := (tracks s)
          (t := (\<lambda>j. if i \<le> j \<and> j < unat (trackEventCount s t)
                      then (tracks s t j)\<lparr>played := False\<rparr> else tracks s t j))\<rparr>"
      using True
      by (intro VS1053_MIDI.equality) (auto simp add: fun_eq_iff Suc_le_split)
    finally show ?thesis .
  qed
qed

lemma startSequencer_tracks_eq:
  "startSequencer_tracks t s =
     s\<lparr>tracks := (\<lambda>t' j. if t \<le> t' \<and> t' < SEQ_MAX_TRACKS \<and> j < unat (trackEventCount s t')
                         then (tracks s t' j)\<lparr>played := False\<rparr> else tracks s t' j)\<rparr>"
proof (induction t s rule: startSequencer_tracks.induct)
  case (1 t s)
  show ?case
  proof (cases "t < SEQ_MAX_TRACKS")
    case False
    then show ?thesis
      by (intro VS1053_MIDI.equality)
         (auto simp add: startSequencer_tracks.simps [of t] fun_eq_iff)
  next
    case True
    let ?s' = "startSequencer_events t 0 s"
    have "startSequencer_tracks t s = startSequencer_tracks (t + 1) ?s'"
      using True by (simp add: startSequencer_tracks.simps [of t])
    also have "\<dots> = ?s'\<lparr>tracks := (\<lambda>t' j. if t + 1 \<le> t' \<and> t' < SEQ_MAX_TRACKS \<and> j < unat (trackEventCount ?s' t')
                         then (tracks ?s' t' j)\<lparr>played := False\<rparr> else tracks ?s' t' j)\<rparr>"
      by (rule "1.IH" [OF True])
    also have "\<dots> = s\<lparr>tracks := (\<lambda>t' j. if t \<le> t' \<and> t' < SEQ_MAX_TRACKS \<and> j < unat (trackEventCount s t')
                         then (tracks s t' j)\<lparr>played := False\<rparr> else tracks s t' j)\<rparr>"
      using True
      by (intro VS1053_MIDI.equality)
         (auto simp add: fun_eq_iff Suc_le_split startSequencer_events_eq)
    finally show ?thesis .
  qed
qed

lemma startSequencer_eq:
  "startSequencer now loopMs s =
     s\<lparr>sequencerStartMs := now, sequencerRunning := True, globalLoopMs := loopMs,
       tracks := (\<lambda>t i. if t < SEQ_MAX_TRACKS \<and> i < unat (trackEventCount s t)
                         then (tracks s t i)\<lparr>played := False\<rparr> else tracks s t i)\<rparr>"
  by (intro VS1053_MIDI.equality)
     (auto simp add: startSequencer_def startSequencer_tracks_eq fun_eq_iff)

lemma Max_insert_max:
  fixes p :: "'a::linorder"
  shows "finite A \<Longrightarrow> Max (insert (max p x) A) = max p (Max (insert x A))"
  by (cases "A = {}") (simp_all add: max.assoc)

lemma longest_track_eq:
  "longest_track t p s = Max (insert p (trackLoopLengthMs s ` {t..<SEQ_MAX_TRACKS}))"
proof (induction t p s rule: longest_track.induct)
  case (1 t p s)
  show ?case
  proof (cases "t < SEQ_MAX_TRACKS")
    case False
    then show ?thesis by (simp add: longest_track.simps [of t])
  next
    case True
    then have set: "{t..<SEQ_MAX_TRACKS} = insert t {t + 1..<SEQ_MAX_TRACKS}"
      by auto
    let ?p' = "if trackLoopLengthMs s t > p then trackLoopLengthMs s t else p"
    have p': "?p' = max p (trackLoopLengthMs s t)"
      by (auto simp add: max_def)
    have "longest_track t p s = longest_track (t + 1) ?p' s"
      using True by (simp add: longest_track.simps [of t])
    also have "\<dots> = Max (insert ?p' (trackLoopLengthMs s ` {t + 1..<SEQ_MAX_TRACKS}))"
      by (rule "1.IH" [OF True])
    also have "\<dots> = Max (insert p (trackLoopLengthMs s ` {t..<SEQ_MAX_TRACKS}))"
      unfolding p' set
      by (simp add: Max_insert_max)
    finally show ?thesis .
  qed
qed

lemma scheduleVoiceOff_eq:
  "scheduleVoiceOff chan n off s =
     (case find (\<lambda>w. \<not> active (voices s w)) [0..<SEQ_MAX_VOICES] of
        None \<Rightarrow> s
      | Some w \<Rightarrow> s\<lparr>voices := (voices s)(w := (voices s w)\<lparr>active := True, vchannel := chan, vnote := n,
                                        offTimeMs := off\<rparr>)\<rparr>)"
  by (simp add: scheduleVoiceOff_def scheduleVoiceOff_from_eq)

lemma fire_event_tracks_update:
  "fire_event now ev (s\<lparr>tracks := T\<rparr>) = (fire_event now ev s)\<lparr>tracks := T\<rparr>"
  by (simp add: fire_event_def scheduleVoiceOff_eq noteOn_eq setInstrument_eq split: option.split)

lemma fire_event_fields:
  "tracks (fire_event now ev s) = tracks s"
  "trackEventCount (fire_event now ev s) = trackEventCount s"
  "trackLoopLengthMs (fire_event now ev s) = trackLoopLengthMs s"
  "sequencerRunning (fire_event now ev s) = sequencerRunning s"
  "sequencerStartMs (fire_event now ev s) = sequencerStartMs s"
  "globalLoopMs (fire_event now ev s) = globalLoopMs s"
  "debug (fire_event now ev s) = debug s"
  by (simp_all add: fire_event_def scheduleVoiceOff_eq noteOn_eq setInstrument_eq split: option.split)

lemma update_event_eq:
  "update_event now pos t i s =
     (if event_fires pos (tracks s t i) then fire_event now (tracks s t i) s else s)
       \<lparr>tracks := (tracks s)
          (t := (tracks s t)(i := (tracks s t i)\<lparr>played := next_played pos (tracks s t i)\<rparr>))\<rparr>"
proof -
  let ?ev = "tracks s t i"
  consider (fire) "\<not> played ?ev \<and> timeOffsetMs ?ev \<le> pos"
    | (reset) "played ?ev \<and> timeOffsetMs ?ev > pos"
    | (keep) "\<not> (\<not> played ?ev \<and> timeOffsetMs ?ev \<le> pos)" "\<not> (played ?ev \<and> timeOffsetMs ?ev > pos)"
    by blast
  then show ?thesis
  proof cases
    case fire
    then show ?thesis
      by (simp add: update_event_def Let_def event_fires_def next_played_def fire_event_def
            fire_event_fields [unfolded fire_event_def])
  next
    case reset
    then show ?thesis
      by (auto simp add: update_event_def Let_def event_fires_def next_played_def)
  next
    case keep
    have e: "update_event now pos t i s = s"
      unfolding update_event_def Let_def by (simp only: keep if_False)
    have f: "event_fires pos ?ev = False"
      unfolding event_fires_def by (simp only: keep)
    have n: "next_played pos ?ev = played ?ev"
      unfolding next_played_def by (simp only: keep if_False)
    show ?thesis
      unfolding e f n by simp
  qed
qed

lemma update_event_fields:
  "trackEventCount (update_event now pos t i s) = trackEventCount s"
  "trackLoopLengthMs (update_event now pos t i s) = trackLoopLengthMs s"
  "sequencerRunning (update_event now pos t i s) = sequencerRunning s"
  "sequencerStartMs (update_event now pos t i s) = sequencerStartMs s"
  "globalLoopMs (update_event now pos t i s) = globalLoopMs s"
  "debug (update_event now pos t i s) = debug s"
  by (simp_all add: update_event_eq fire_event_fields)

lemma update_events_fold:
  "update_events now pos t i s =
     foldl (\<lambda>a j. update_event now pos t j a) s [i..<unat (trackEventCount s t)]"
proof (induction now pos t i s rule: update_events.induct)
  case (1 now pos t i s)
  show ?case
  proof (cases "i < unat (trackEventCount s t)")
    case False
    then show ?thesis by (simp add: update_events.simps [of now pos t i])
  next
    case True
    then have upt: "[i..<unat (trackEventCount s t)] = i # [i + 1..<unat (trackEventCount s t)]"
      by (simp add: upt_conv_Cons)
    show ?thesis
      using True "1.IH" [OF True]
      by (simp add: update_events.simps [of now pos t i] upt update_event_fields)
  qed
qed

lemma foldl_update_event_count:
  "trackEventCount (foldl (\<lambda>a j. update_event now pos t j a) s js) = trackEventCount s"
  by (induction js arbitrary: s) (simp_all add: update_event_fields)

lemma update_tracks_fold:
  "update_tracks now pos t s =
     foldl (\<lambda>a (t', i). update_event now pos t' i a) s
       (concat (map (\<lambda>t'. map (Pair t') [0..<unat (trackEventCount s t')]) [t..<SEQ_MAX_TRACKS]))"
proof (induction now pos t s rule: update_tracks.induct)
  case (1 now pos t s)
  show ?case
  proof (cases "t < SEQ_MAX_TRACKS")
    case False
    then show ?thesis by (simp add: update_tracks.simps [of now pos t])
  next
    case True
    then have upt: "[t..<SEQ_MAX_TRACKS] = t # [t + 1..<SEQ_MAX_TRACKS]"
      by (simp add: upt_conv_Cons)
    let ?s' = "update_events now pos t 0 s"
    have cnt: "trackEventCount ?s' = trackEventCount s"
      by (simp add: update_events_fold foldl_update_event_count)
    have inner: "?s' = foldl (\<lambda>a (t', i). update_event now pos t' i a) s
                        (map (Pair t) [0..<unat (trackEventCount s t)])"
      by (simp add: update_events_fold foldl_map)
    have "update_tracks now pos t s = update_tracks now pos (t + 1) ?s'"
      using True by (simp add: update_tracks.simps [of now pos t])
    also have "\<dots> = foldl (\<lambda>a (t', i). update_event now pos t' i a) ?s'
       (concat (map (\<lambda>t'. map (Pair t') [0..<unat (trackEventCount ?s' t')]) [t + 1..<SEQ_MAX_TRACKS]))"
      by (rule "1.IH" [OF True])
    finally show ?thesis
      unfolding cnt upt by (simp add: inner)
  qed
qed

lemma foldl_fire_event_tracks_update:
  "foldl (\<lambda>a (t, i). fire_event now (T0 t i) a) (s\<lparr>tracks := T\<rparr>) es
     = (foldl (\<lambda>a (t, i). fire_event now (T0 t i) a) s es)\<lparr>tracks := T\<rparr>"
  by (induction es arbitrary: s) (auto simp add: fire_event_tracks_update)

lemma foldl_fire_event_fields:
  "tracks (foldl (\<lambda>a (t, i). fire_event now (T0 t i) a) s es) = tracks s"
  "trackEventCount (foldl (\<lambda>a (t, i). fire_event now (T0 t i) a) s es) = trackEventCount s"
  "trackLoopLengthMs (foldl (\<lambda>a (t, i). fire_event now (T0 t i) a) s es) = trackLoopLengthMs s"
  "sequencerRunning (foldl (\<lambda>a (t, i). fire_event now (T0 t i) a) s es) = sequencerRunning s"
  "sequencerStartMs (foldl (\<lambda>a (t, i). fire_event now (T0 t i) a) s es) = sequencerStartMs s"
  "globalLoopMs (foldl (\<lambda>a (t, i). fire_event now (T0 t i) a) s es) = globalLoopMs s"
  "debug (foldl (\<lambda>a (t, i). fire_event now (T0 t i) a) s es) = debug s"
  by (induction es arbitrary: s) (auto simp add: fire_event_fields)

lemma foldl_update_event_eq:
  "distinct es \<Longrightarrow>
   foldl (\<lambda>a (t, i). update_event now pos t i a) s es =
     (foldl (\<lambda>a (t, i). fire_event now (tracks s t i) a) s
        (filter (\<lambda>(t, i). event_fires pos (tracks s t i)) es))
       \<lparr>tracks := (\<lambda>t i. if (t, i) \<in> set es
                         then (tracks s t i)\<lparr>played := next_played pos (tracks s t i)\<rparr>
                         else tracks s t i)\<rparr>"
proof (induction es rule: rev_induct)
  case Nil
  show ?case by simp
next
  case (snoc e es)
  obtain t i where e: "e = (t, i)" by (cases e)
  from snoc.prems have dist: "distinct es" and fresh: "(t, i) \<notin> set es"
    by (simp_all add: e)
  let ?T = "\<lambda>t i. if (t, i) \<in> set es
                         then (tracks s t i)\<lparr>played := next_played pos (tracks s t i)\<rparr>
                         else tracks s t i"
  let ?X = "foldl (\<lambda>a (t, i). fire_event now (tracks s t i) a) s
        (filter (\<lambda>(t, i). event_fires pos (tracks s t i)) es)"
  have IH: "foldl (\<lambda>a (t, i). update_event now pos t i a) s es = ?X\<lparr>tracks := ?T\<rparr>"
    by (rule snoc.IH [OF dist])
  have here: "?T t i = tracks s t i"
    using fresh by simp
  have T': "(?T)(t := (?T t)(i := (tracks s t i)\<lparr>played := next_played pos (tracks s t i)\<rparr>))
          = (\<lambda>t' i'. if (t', i') \<in> set (es @ [e])
                         then (tracks s t' i')\<lparr>played := next_played pos (tracks s t' i')\<rparr>
                         else tracks s t' i')"
    by (rule ext, rule ext) (auto simp add: e)
  have "foldl (\<lambda>a (t, i). update_event now pos t i a) s (es @ [e])
      = update_event now pos t i (?X\<lparr>tracks := ?T\<rparr>)"
    by (simp add: e IH)
  also have "\<dots> = (if event_fires pos (tracks s t i) then fire_event now (tracks s t i) ?X else ?X)
       \<lparr>tracks := (?T)(t := (?T t)(i := (tracks s t i)\<lparr>played := next_played pos (tracks s t i)\<rparr>))\<rparr>"
    unfolding update_event_eq
    by (simp add: here fire_event_tracks_update del: fun_upd_apply)
  also have "\<dots> = (foldl (\<lambda>a (t, i). fire_event now (tracks s t i) a) s
        (filter (\<lambda>(t, i). event_fires pos (tracks s t i)) (es @ [e])))
       \<lparr>tracks := (\<lambda>t' i'. if (t', i') \<in> set (es @ [e])
                         then (tracks s t' i')\<lparr>played := next_played pos (tracks s t' i')\<rparr>
                         else tracks s t' i')\<rparr>"
    unfolding T' by (simp add: e)
  finally show ?case .
qed

lemma set_stored_events:
  "set (stored_events s) = {(t, i). t < SEQ_MAX_TRACKS \<and> i < unat (trackEventCount s t)}"
  by (auto simp add: stored_events_def)

lemma distinct_track_events:
  "distinct ts \<Longrightarrow> distinct (concat (map (\<lambda>t. map (Pair t) [0..<n t]) ts))"
proof (induction ts)
  case Nil
  show ?case by simp
next
  case (Cons t ts)
  then show ?case
    by (auto simp add: distinct_map inj_on_def)
qed

lemma distinct_stored_events: "distinct (stored_events s)"
  unfolding stored_events_def by (rule distinct_track_events) simp

lemma update_tracks_eq:
  "update_tracks now pos 0 s =
     (foldl (\<lambda>a (t, i). fire_event now (tracks s t i) a) s
        (filter (\<lambda>(t, i). event_fires pos (tracks s t i)) (stored_events s)))
       \<lparr>tracks := (\<lambda>t i. if t < SEQ_MAX_TRACKS \<and> i < unat (trackEventCount s t)
                         then (tracks s t i)\<lparr>played := next_played pos (tracks s t i)\<rparr>
                         else tracks s t i)\<rparr>"
proof -
  have "update_tracks now pos 0 s
      = foldl (\<lambda>a (t, i). update_event now pos t i a) s (stored_events s)"
    by (simp add: update_tracks_fold stored_events_def)
  also note foldl_update_event_eq [OF distinct_stored_events]
  finally show ?thesis
    by (simp add: set_stored_events)
qed

lemma ctor_tracks_eq:
  "ctor_tracks t s =
     s\<lparr>trackEventCount := (\<lambda>t'. if t \<le> t' \<and> t' < SEQ_MAX_TRACKS then 0 else trackEventCount s t'),
       trackLoopLengthMs := (\<lambda>t'. if t \<le> t' \<and> t' < SEQ_MAX_TRACKS then 0 else trackLoopLengthMs s t')\<rparr>"
proof (induction t s rule: ctor_tracks.induct)
  case (1 t s)
  show ?case
  proof (cases "t < SEQ_MAX_TRACKS")
    case False
    then show ?thesis
      by (intro VS1053_MIDI.equality) (auto simp add: ctor_tracks.simps [of t] fun_eq_iff)
  next
    case True
    show ?thesis
      using True
      by (subst ctor_tracks.simps, subst "1.IH" [OF True], intro VS1053_MIDI.equality)
         (auto simp add: fun_eq_iff Suc_le_split)
  qed
qed

lemma ctor_voices_eq:
  "ctor_voices v s =
     s\<lparr>voices := (\<lambda>w. if v \<le> w \<and> w < SEQ_MAX_VOICES then (voices s w)\<lparr>active := False\<rparr>
                      else voices s w)\<rparr>"
proof (induction v s rule: ctor_voices.induct)
  case (1 v s)
  show ?case
  proof (cases "v < SEQ_MAX_VOICES")
    case False
    then show ?thesis
      by (intro VS1053_MIDI.equality) (auto simp add: ctor_voices.simps [of v] fun_eq_iff)
  next
    case True
    show ?thesis
      using True
      by (subst ctor_voices.simps, subst "1.IH" [OF True], intro VS1053_MIDI.equality)
         (auto simp add: fun_eq_iff Suc_le_split)
  qed
qed

lemma ctor_channels_eq:
  "ctor_channels c s =
     s\<lparr>lastChannelInstrument := (\<lambda>c'. if c \<le> c' \<and> c' < 16 then 255
                                     else lastChannelInstrument s c')\<rparr>"
proof (induction c s rule: ctor_channels.induct)
  case (1 c s)
  show ?case
  proof (cases "c < 16")
    case False
    then show ?thesis
      by (intro VS1053_MIDI.equality) (auto simp add: ctor_channels.simps [of c] fun_eq_iff)
  next
    case True
    show ?thesis
      using True
      by (subst ctor_channels.simps, subst "1.IH" [OF True], intro VS1053_MIDI.equality)
         (auto simp add: fun_eq_iff Suc_le_split)
  qed
qed

lemma VS1053_MIDI_new_eq:
  "VS1053_MIDI_new mem =
     mem\<lparr>trackEventCount := (\<lambda>t. if t < SEQ_MAX_TRACKS then 0 else trackEventCount mem t),
         trackLoopLengthMs := (\<lambda>t. if t < SEQ_MAX_TRACKS then 0 else trackLoopLengthMs mem t),
         voices := (\<lambda>v. if v < SEQ_MAX_VOICES then (voices mem v)\<lparr>active := False\<rparr> else voices mem v),
         lastChannelInstrument := (\<lambda>c. if c < 16 then 255 else lastChannelInstrument mem c),
         sequencerRunning := False, globalLoopMs := 0, debug := False\<rparr>"
  by (intro VS1053_MIDI.equality)
     (auto simp add: VS1053_MIDI_new_def ctor_tracks_eq ctor_voices_eq ctor_channels_eq fun_eq_iff)

lemma patternLength_eq:
  "patternLength s =
     (if globalLoopMs s > 0 then globalLoopMs s
      else if Max (trackLoopLengthMs s ` {..<SEQ_MAX_TRACKS}) = 0 then 1
      else Max (trackLoopLengthMs s ` {..<SEQ_MAX_TRACKS}))"
proof -
  have "Max (insert 0 (trackLoopLengthMs s ` {0..<SEQ_MAX_TRACKS}))
      = Max (trackLoopLengthMs s ` {..<SEQ_MAX_TRACKS})"
    by (subst Max_insert) (auto simp add: lessThan_atLeast0 max_def)
  then show ?thesis
    by (simp add: patternLength_def longest_track_eq Let_def)
qed

lemma patternLength_nonzero: "patternLength s \<noteq> 0"
  by (auto simp add: patternLength_eq)

lemma patternLength_cong:
  "globalLoopMs a = globalLoopMs b \<Longrightarrow> trackLoopLengthMs a = trackLoopLengthMs b \<Longrightarrow>
   patternLength a = patternLength b"
  by (simp add: patternLength_eq)

lemma expireDue_fields:
  "tracks (expireDue now s) = tracks s"
  "trackEventCount (expireDue now s) = trackEventCount s"
  "trackLoopLengthMs (expireDue now s) = trackLoopLengthMs s"
  "sequencerRunning (expireDue now s) = sequencerRunning s"
  "sequencerStartMs (expireDue now s) = sequencerStartMs s"
  "globalLoopMs (expireDue now s) = globalLoopMs s"
  "lastChannelInstrument (expireDue now s) = lastChannelInstrument s"
  "debug (expireDue now s) = debug s"
  by (simp_all add: expireDue_def)

lemma stored_events_cong:
  "trackEventCount a = trackEventCount b \<Longrightarrow> stored_events a = stored_events b"
  by (simp add: stored_events_def)

lemma update_eq:
  "update now s =
     Some (if sequencerRunning s
           then update_tracks now ((now - sequencerStartMs s) mod patternLength s) 0 (expireDue now s)
           else expireDue now s)"
proof -
  have "patternLength (expireDue now s) = patternLength s"
    by (rule patternLength_cong) (simp_all add: expireDue_fields)
  then show ?thesis
    by (simp add: update_def update_voice_offs_eq expireDue_fields umod32_def
          patternLength_nonzero Let_def)
qed

lemma low_channel: "chan \<le> 15 \<Longrightarrow> chan AND 0x0F = (chan :: u8)"
proof -
  assume "chan \<le> 15"
  then have "chan < 2 ^ 4" by (simp add: word_le_nat_alt word_less_nat_alt)
  then have "chan AND mask 4 = chan" by (rule less_mask_eq)
  then show ?thesis by (simp add: mask_eq_exp_minus_1)
qed

lemma find_first_free:
  "v < n \<Longrightarrow> P v \<Longrightarrow> (\<forall>w<v. \<not> P w) \<Longrightarrow> find P [0..<n] = Some v"
  by (simp add: find_Some_iff) (rule exI [of _ v], simp)

lemma find_no_free:
  "(\<forall>v<n. \<not> P v) \<Longrightarrow> find P [0..<n] = None"
  by (simp add: find_None_iff)

lemma new_voice_record:
  "(a :: ActiveVoice)\<lparr>active := True, vchannel := chan, vnote := n, offTimeMs := off\<rparr>
     = \<lparr>active = True, vchannel = chan, vnote = n, offTimeMs = off\<rparr>"
  by (cases a) simp

lemma update_full:
  "update now s =
     Some (if sequencerRunning s
           then (foldl (\<lambda>a (t, i). fire_event now (tracks s t i) a) (expireDue now s)
                   (filter (\<lambda>(t, i). event_fires ((now - sequencerStartMs s) mod patternLength s) (tracks s t i))
                      (stored_events s)))
                \<lparr>tracks := (\<lambda>t i. if t < SEQ_MAX_TRACKS \<and> i < unat (trackEventCount s t)
                         then (tracks s t i)\<lparr>played := next_played ((now - sequencerStartMs s) mod patternLength s) (tracks s t i)\<rparr>
                         else tracks s t i)\<rparr>
           else expireDue now s)"
  by (simp add: update_eq update_tracks_eq expireDue_fields stored_events_cong [of "expireDue now s" s]
        cong: if_cong)

lemma played_rule:
  "ev\<lparr>played := next_played pos ev\<rparr> =
     (if \<not> played ev \<and> timeOffsetMs ev \<le> pos then ev\<lparr>played := True\<rparr>
      else if played ev \<and> pos < timeOffsetMs ev then ev\<lparr>played := False\<rparr>
      else ev)"
  by (simp add: next_played_def)

lemma fire_event_midi_out:
  "\<exists>bytes. midi_out (fire_event now ev s) = midi_out s @ bytes"
  by (simp add: fire_event_def scheduleVoiceOff_eq noteOn_eq setInstrument_eq split: option.split)

lemma update_event_midi_out:
  "\<exists>bytes. midi_out (update_event now pos t i s) = midi_out s @ bytes"
  using fire_event_midi_out [of now "tracks s t i" s]
  by (auto simp add: update_event_eq)

lemma foldl_update_event_midi_out:
  "\<exists>bytes. midi_out (foldl (\<lambda>a (t, i). update_event now pos t i a) s es) = midi_out s @ bytes"
proof (induction es rule: rev_induct)
  case Nil
  show ?case by simp
next
  case (snoc e es)
  obtain t i where e: "e = (t, i)" by (cases e)
  from snoc obtain b1 where
    b1: "midi_out (foldl (\<lambda>a (t, i). update_event now pos t i a) s es) = midi_out s @ b1"
    by blast
  obtain b2 where
    b2: "midi_out (update_event now pos t i (foldl (\<lambda>a (t, i). update_event now pos t i a) s es))
         = midi_out (foldl (\<lambda>a (t, i). update_event now pos t i a) s es) @ b2"
    using update_event_midi_out by blast
  show ?case
    by (rule exI [of _ "b1 @ b2"]) (simp add: e b1 b2)
qed

lemma update_tracks_as_fold:
  "update_tracks now pos 0 s = foldl (\<lambda>a (t, i). update_event now pos t i a) s (stored_events s)"
  by (simp add: update_tracks_fold stored_events_def)

lemma filter_removeAll_other: "\<not> P x \<Longrightarrow> filter P (removeAll x xs) = filter P xs"
  by (induction xs) auto

lemma wrapped_length_cong:
  assumes "trackEventCount a t = trackEventCount b t"
      and "\<And>i. i < unat (trackEventCount b t) \<Longrightarrow>
             timeOffsetMs (tracks a t i) = timeOffsetMs (tracks b t i)
           \<and> durationMs (tracks a t i) = durationMs (tracks b t i)"
  shows "wrapped_length a t = wrapped_length b t"
proof -
  have "map (\<lambda>i. timeOffsetMs (tracks a t i) + durationMs (tracks a t i)) [0..<unat (trackEventCount b t)]
      = map (\<lambda>i. timeOffsetMs (tracks b t i) + durationMs (tracks b t i)) [0..<unat (trackEventCount b t)]"
    by (rule map_cong) (simp_all add: assms(2))
  then show ?thesis
    by (simp add: wrapped_length_def assms(1))
qed

lemma scheduleVoiceOff_fields:
  "tracks (scheduleVoiceOff chan n off s) = tracks s"
  "trackEventCount (scheduleVoiceOff chan n off s) = trackEventCount s"
  "trackLoopLengthMs (scheduleVoiceOff chan n off s) = trackLoopLengthMs s"
  by (simp_all add: scheduleVoiceOff_eq split: option.split)

lemma wrapped_length_addEvent:
  assumes "unat (trackEventCount s t) < SEQ_MAX_EVENTS"
      and "trackLoopLengthMs s t = wrapped_length s t"
      and "trackEventCount b t = trackEventCount s t + 1"
      and "tracks b t = (tracks s t)(unat (trackEventCount s t) := e)"
      and "timeOffsetMs e = off" and "durationMs e = dur"
  shows "wrapped_length b t = max (trackLoopLengthMs s t) (off + dur)"
proof -
  let ?n = "unat (trackEventCount s t)"
  have "?n + unat (1 :: u16) < 2 ^ LENGTH(16)"
    using assms(1) by simp
  then have inc: "unat (trackEventCount s t + 1) = ?n + 1"
    by (simp add: unat_add_lem [THEN iffD1])
  have old: "map (\<lambda>i. timeOffsetMs (if i = ?n then e else tracks s t i)
                     + durationMs (if i = ?n then e else tracks s t i)) [0..<?n]
           = map (\<lambda>i. timeOffsetMs (tracks s t i) + durationMs (tracks s t i)) [0..<?n]"
    by (rule map_cong) simp_all
  show ?thesis
    unfolding wrapped_length_def assms(2) assms(3) assms(4)
    by (simp add: inc old assms(5,6) max.commute max.left_commute cong: if_cong)
       (simp add: Max_insert_max [symmetric] insert_commute max.commute)
qed

lemma addEvent_wrapped_length:
  assumes "trackLoopLengthMs s t = wrapped_length s t"
  shows "trackLoopLengthMs (snd (addEvent track off chan instr n vel dur s)) t
         = wrapped_length (snd (addEvent track off chan instr n vel dur s)) t"
proof (cases "unat track < SEQ_MAX_TRACKS \<and> unat (trackEventCount s (unat track)) < SEQ_MAX_EVENTS")
  case False
  then show ?thesis
    using assms by (auto simp add: addEvent_def)
next
  case ok: True
  let ?s' = "snd (addEvent track off chan instr n vel dur s)"
  show ?thesis
  proof (cases "unat track = t")
    case False
    have "wrapped_length ?s' t = wrapped_length s t"
      using ok False by (intro wrapped_length_cong) (auto simp add: addEvent_def Let_def)
    moreover have "trackLoopLengthMs ?s' t = trackLoopLengthMs s t"
      using ok False by (auto simp add: addEvent_def Let_def)
    ultimately show ?thesis using assms by simp
  next
    case True
    let ?e = "(tracks s t (unat (trackEventCount s t)))
                \<lparr>timeOffsetMs := off, channel := chan, inst := instr, note := n,
                 velocity := vel, durationMs := dur, played := False\<rparr>"
    from ok True have c: "unat (trackEventCount s t) < SEQ_MAX_EVENTS" by simp
    have cnt: "trackEventCount ?s' t = trackEventCount s t + 1"
      using ok True by (auto simp add: addEvent_def Let_def)
    have trk: "tracks ?s' t = (tracks s t)(unat (trackEventCount s t) := ?e)"
      using ok True by (auto simp add: addEvent_def Let_def)
    have len: "trackLoopLengthMs ?s' t = max (trackLoopLengthMs s t) (off + dur)"
      using ok True by (auto simp add: addEvent_def Let_def max_def)
    have "wrapped_length ?s' t = max (trackLoopLengthMs s t) (off + dur)"
      by (rule wrapped_length_addEvent [OF c assms cnt trk]) simp_all
    with len show ?thesis by simp
  qed
qed

lemma call_wrapped_length:
  assumes "call c s = Some s'" and "trackLoopLengthMs s t = wrapped_length s t"
  shows "trackLoopLengthMs s' t = wrapped_length s' t"
proof (cases c)
  case (AddEvent track off chan instr n vel dur)
  then show ?thesis
    using assms addEvent_wrapped_length [OF assms(2)] by auto
next
  case (ClearTrack track)
  show ?thesis
  proof (cases "unat track < SEQ_MAX_TRACKS \<and> unat track = t")
    case True
    then show ?thesis
      using assms ClearTrack by (auto simp add: clearTrack_def wrapped_length_def)
  next
    case False
    then have "wrapped_length s' t = wrapped_length s t"
      using assms ClearTrack by (intro wrapped_length_cong) (auto simp add: clearTrack_def)
    moreover have "trackLoopLengthMs s' t = trackLoopLengthMs s t"
      using False assms ClearTrack by (auto simp add: clearTrack_def)
    ultimately show ?thesis using assms by simp
  qed
next
  case (StartSequencer now loopMs)
  then have s': "s' = startSequencer now loopMs s" using assms by simp
  have "wrapped_length s' t = wrapped_length s t"
    unfolding s' by (intro wrapped_length_cong) (simp_all add: startSequencer_eq)
  then show ?thesis using assms by (simp add: s' startSequencer_eq)
next
  case (Update now)
  then have up: "update now s = Some s'" using assms by simp
  have "wrapped_length s' t = wrapped_length s t"
    using up
    by (intro wrapped_length_cong)
       (auto simp add: update_full foldl_fire_event_fields expireDue_fields split: if_splits)
  moreover have "trackLoopLengthMs s' t = trackLoopLengthMs s t"
    using up by (auto simp add: update_full foldl_fire_event_fields expireDue_fields split: if_splits)
  ultimately show ?thesis using assms by simp
next
  case (SetDebug en)
  then have "wrapped_length s' t = wrapped_length s t" "trackLoopLengthMs s' t = trackLoopLengthMs s t"
    using assms by (auto simp add: setDebug_def intro!: wrapped_length_cong)
  then show ?thesis using assms by simp
next
  case (SetInstrument chan instr)
  then have "wrapped_length s' t = wrapped_length s t" "trackLoopLengthMs s' t = trackLoopLengthMs s t"
    using assms by (auto simp add: setInstrument_eq intro!: wrapped_length_cong)
  then show ?thesis using assms by simp
next
  case (NoteOn chan n vel)
  then have "wrapped_length s' t = wrapped_length s t" "trackLoopLengthMs s' t = trackLoopLengthMs s t"
    using assms by (auto simp add: noteOn_eq intro!: wrapped_length_cong)
  then show ?thesis using assms by simp
next
  case (NoteOff chan n vel)
  then have "wrapped_length s' t = wrapped_length s t" "trackLoopLengthMs s' t = trackLoopLengthMs s t"
    using assms by (auto simp add: noteOff_eq intro!: wrapped_length_cong)
  then show ?thesis using assms by simp
next
  case (PlayNoteAsync now chan instr n dur vel)
  then have "wrapped_length s' t = wrapped_length s t" "trackLoopLengthMs s' t = trackLoopLengthMs s t"
    using assms
    by (auto simp add: playNoteAsync_def scheduleVoiceOff_fields noteOn_eq setInstrument_eq
          intro!: wrapped_length_cong)
  then show ?thesis using assms by simp
next
  case (PlayNoteAsync2 now chan n dur vel)
  then have "wrapped_length s' t = wrapped_length s t" "trackLoopLengthMs s' t = trackLoopLengthMs s t"
    using assms
    by (auto simp add: playNoteAsync2_def scheduleVoiceOff_fields noteOn_eq intro!: wrapped_length_cong)
  then show ?thesis using assms by simp
next
  case (SetPan chan pan)
  then have "wrapped_length s' t = wrapped_length s t" "trackLoopLengthMs s' t = trackLoopLengthMs s t"
    using assms by (auto simp add: setPan_def talkMIDI_eq Let_def intro!: wrapped_length_cong)
  then show ?thesis using assms by simp
next
  case (SetReverb reverb)
  then have "wrapped_length s' t = wrapped_length s t" "trackLoopLengthMs s' t = trackLoopLengthMs s t"
    using assms by (auto simp add: setReverb_def talkMIDI_eq Let_def intro!: wrapped_length_cong)
  then show ?thesis using assms by simp
next
  case (SetMasterVolume volume)
  then have "wrapped_length s' t = wrapped_length s t" "trackLoopLengthMs s' t = trackLoopLengthMs s t"
    using assms by (auto simp add: setMasterVolume_def talkMIDI_eq Let_def intro!: wrapped_length_cong)
  then show ?thesis using assms by simp
next
  case (SetChannelVolume chan volume)
  then have "wrapped_length s' t = wrapped_length s t" "trackLoopLengthMs s' t = trackLoopLengthMs s t"
    using assms by (auto simp add: setChannelVolume_def talkMIDI_eq Let_def intro!: wrapped_length_cong)
  then show ?thesis using assms by simp
next
  case StopSequencer
  then have "wrapped_length s' t = wrapped_length s t" "trackLoopLengthMs s' t = trackLoopLengthMs s t"
    using assms by (auto simp add: stopSequencer_def intro!: wrapped_length_cong)
  then show ?thesis using assms by simp
qed

lemma call_total: "\<exists>s'. call c s = Some s'"
  by (cases c) (simp_all add: update_eq)

lemma run_wrapped_length:
  "trackLoopLengthMs s t = wrapped_length s t \<Longrightarrow>
   \<exists>s'. run calls s = Some s' \<and> trackLoopLengthMs s' t = wrapped_length s' t"
proof (induction calls arbitrary: s)
  case Nil
  then show ?case by simp
next
  case (Cons c calls)
  obtain s1 where s1: "call c s = Some s1"
    using call_total by blast
  have "trackLoopLengthMs s1 t = wrapped_length s1 t"
    using s1 Cons.prems by (rule call_wrapped_length)
  from Cons.IH [OF this] show ?case
    by (simp add: s1)
qed

lemma unat_Max_set:
  fixes xs :: "u32 list"
  shows "unat (Max (set (0 # xs))) = Max (set (0 # map unat xs))"
proof -
  have "unat (Max (set (0 # xs))) = Max (unat ` set (0 # xs))"
    by (rule mono_Max_commute) (auto simp add: mono_def word_le_nat_alt)
  then show ?thesis by simp
qed

lemma offset_zero_never_rearmed:
  "played (tracks a t i) \<Longrightarrow> timeOffsetMs (tracks a t i) = 0 \<Longrightarrow> update_event now pos t i a = a"
  by (simp add: update_event_def Let_def)

lemma late_event_step:
  assumes "sequencerRunning s" and "t < SEQ_MAX_TRACKS" and "i < unat (trackEventCount s t)"
      and "patternLength s \<le> timeOffsetMs (tracks s t i)"
  shows "\<exists>s'. update now s = Some s'
     \<and> s' = (foldl (\<lambda>a (t', i'). fire_event now (tracks s t' i') a) (expireDue now s)
                 (filter (\<lambda>(t', i'). event_fires ((now - sequencerStartMs s) mod patternLength s) (tracks s t' i'))
                    (removeAll (t, i) (stored_events s))))
               \<lparr>tracks := tracks s'\<rparr>
     \<and> \<not> played (tracks s' t i)
     \<and> (\<forall>a pos. pos < patternLength s \<and> timeOffsetMs (tracks a t i) = timeOffsetMs (tracks s t i) \<longrightarrow>
           update_event now pos t i a
             = a\<lparr>tracks := (tracks a)(t := (tracks a t)(i := (tracks a t i)\<lparr>played := False\<rparr>))\<rparr>)
     \<and> sequencerRunning s' \<and> patternLength s' = patternLength s
     \<and> trackEventCount s' = trackEventCount s
     \<and> timeOffsetMs (tracks s' t i) = timeOffsetMs (tracks s t i)"
proof -
  let ?pos = "(now - sequencerStartMs s) mod patternLength s"
  let ?ev = "tracks s t i"
  have "0 < patternLength s"
    using patternLength_nonzero [of s] by (simp add: word_neq_0_conv)
  then have lt: "?pos < patternLength s" by (rule word_mod_less_divisor)
  have late: "pos < timeOffsetMs ?ev" if "pos < patternLength s" for pos
    using that assms(4) by simp
  have nofire: "\<not> event_fires pos ?ev" if "pos < patternLength s" for pos
    using late [OF that] by (auto simp add: event_fires_def)
  have np: "next_played pos ?ev = False" if "pos < patternLength s" for pos
    using late [OF that] by (auto simp add: next_played_def)
  have flt: "filter (\<lambda>(t', i'). event_fires ?pos (tracks s t' i')) (removeAll (t, i) (stored_events s))
           = filter (\<lambda>(t', i'). event_fires ?pos (tracks s t' i')) (stored_events s)"
    using nofire [OF lt] by (intro filter_removeAll_other) simp
  let ?s' = "(foldl (\<lambda>a (t', i'). fire_event now (tracks s t' i') a) (expireDue now s)
                   (filter (\<lambda>(t', i'). event_fires ?pos (tracks s t' i')) (stored_events s)))
                \<lparr>tracks := (\<lambda>t i. if t < SEQ_MAX_TRACKS \<and> i < unat (trackEventCount s t)
                         then (tracks s t i)\<lparr>played := next_played ?pos (tracks s t i)\<rparr>
                         else tracks s t i)\<rparr>"
  have up: "update now s = Some ?s'"
    using assms(1) by (simp add: update_full)
  have body: "update_event now pos t i a
             = a\<lparr>tracks := (tracks a)(t := (tracks a t)(i := (tracks a t i)\<lparr>played := False\<rparr>))\<rparr>"
    if "pos < patternLength s \<and> timeOffsetMs (tracks a t i) = timeOffsetMs (tracks s t i)" for a pos
  proof -
    from that have "pos < timeOffsetMs (tracks a t i)"
      using late [of pos] by simp
    then have "\<not> event_fires pos (tracks a t i)" and "next_played pos (tracks a t i) = False"
      by (auto simp add: event_fires_def next_played_def)
    then show ?thesis
      by (simp add: update_event_eq)
  qed
  show ?thesis
    apply (rule exI [of _ ?s'])
    apply (intro conjI allI impI)
           apply (rule up)
          apply (simp add: flt)
         apply (simp add: assms np [OF lt])
        apply (erule body)
       apply (simp add: foldl_fire_event_fields expireDue_fields assms)
      apply (rule patternLength_cong)
       apply (simp add: foldl_fire_event_fields expireDue_fields)
      apply (simp add: foldl_fire_event_fields expireDue_fields)
     apply (simp add: foldl_fire_event_fields expireDue_fields)
    apply (simp add: assms)
    done
qed

lemma late_event_updates:
  assumes "sequencerRunning s" and "t < SEQ_MAX_TRACKS" and "i < unat (trackEventCount s t)"
      and "patternLength s \<le> timeOffsetMs (tracks s t i)"
  shows "\<exists>s'. run (map Update nows) s = Some s' \<and> (nows \<noteq> [] \<longrightarrow> \<not> played (tracks s' t i))"
  using assms
proof (induction nows arbitrary: s)
  case Nil
  show ?case by simp
next
  case (Cons now nows)
  from late_event_step [OF Cons.prems, of now] obtain s1 where
    up: "update now s = Some s1"
    and np: "\<not> played (tracks s1 t i)"
    and keep: "sequencerRunning s1" "patternLength s1 = patternLength s"
      "trackEventCount s1 = trackEventCount s"
      "timeOffsetMs (tracks s1 t i) = timeOffsetMs (tracks s t i)"
    by blast
  have "\<exists>s'. run (map Update nows) s1 = Some s' \<and> (nows \<noteq> [] \<longrightarrow> \<not> played (tracks s' t i))"
    using Cons.prems keep by (intro Cons.IH) simp_all
  then obtain s' where r: "run (map Update nows) s1 = Some s'"
    and f: "nows \<noteq> [] \<longrightarrow> \<not> played (tracks s' t i)"
    by blast
  show ?case
  proof (cases "nows = []")
    case True
    then show ?thesis using up np by simp
  next
    case False
    then show ?thesis using up r f by simp
  qed
qed

section \<open>The claims\<close>

text \<open>
  \<^bold>\<open>Claim C1\<close> (one event at offset 0, duration 100, loop length 200: fired at elapsed time
  0, not fired again at 50, fired again at 200). The code does the first two and not the
  third. Evaluated on \<open>one_event\<close> (started at time 1000): the update at time 1000 sends the
  program change and the note-on; the update at 1050 sends nothing; the update at 1200
  (elapsed 200, position 0) sends only the note-off of the first firing and no note-on, and
  the event's flag is still set. The flag of an event is cleared only in an update whose
  position is strictly below the event's offset (\<open>offset_zero_never_rearmed\<close>), which no
  position is for offset 0. The same happens on \<open>two_events\<close> at elapsed time 500: both
  note-offs, no note-on.
\<close>

theorem offset_zero_event_fires_once:
  "map_option midi_out (update 1000 one_event) = Some [0xC0, 0, 0x90, 60, 100]
   \<and> map_option midi_out (Option.bind (update 1000 one_event) (update 1050))
       = Some [0xC0, 0, 0x90, 60, 100]
   \<and> map_option midi_out
       (Option.bind (Option.bind (update 1000 one_event) (update 1050)) (update 1200))
       = Some [0xC0, 0, 0x90, 60, 100, 0x80, 60, 64]
   \<and> map_option (\<lambda>s. played (tracks s 0 0))
       (Option.bind (Option.bind (update 1000 one_event) (update 1050)) (update 1200))
       = Some True
   \<and> map_option midi_out (Option.bind (update 1000 two_events) (update 1250))
       = Some [0xC0, 0, 0x90, 60, 100, 0x90, 64, 100]
   \<and> map_option midi_out
       (Option.bind (Option.bind (update 1000 two_events) (update 1250)) (update 1500))
       = Some [0xC0, 0, 0x90, 60, 100, 0x90, 64, 100, 0x80, 60, 64, 0x80, 64, 64]"
  by (intro conjI; code_simp)

text \<open>
  \<^bold>\<open>Claim C2\<close>. While the sequencer runs, an update call evaluates every stored event of
  every track against the position \<open>pos = (now - start) mod patternLength\<close>: an event whose
  flag is clear and whose offset is \<open>\<le> pos\<close> is fired and its flag set; an event whose flag
  is set and whose offset is \<open>> pos\<close> has its flag cleared; any other event is left as it
  is. The events that fire are fired in track order, then in the order they were added
  (\<open>stored_events\<close>), starting from the state the voice expiry leaves; nothing else changes.
\<close>

theorem update_event_rule:
  assumes "sequencerRunning s"
  shows "update now s =
     (let pos = (now - sequencerStartMs s) mod patternLength s
      in Some ((foldl (\<lambda>a (t, i). fire_event now (tracks s t i) a) (expireDue now s)
                 (filter (\<lambda>(t, i). \<not> played (tracks s t i) \<and> timeOffsetMs (tracks s t i) \<le> pos)
                    (stored_events s)))
               \<lparr>tracks := (\<lambda>t i.
                    if t < SEQ_MAX_TRACKS \<and> i < unat (trackEventCount s t)
                    then (if \<not> played (tracks s t i) \<and> timeOffsetMs (tracks s t i) \<le> pos
                          then (tracks s t i)\<lparr>played := True\<rparr>
                          else if played (tracks s t i) \<and> pos < timeOffsetMs (tracks s t i)
                          then (tracks s t i)\<lparr>played := False\<rparr>
                          else tracks s t i)
                    else tracks s t i)\<rparr>))"
  using assms
  by (simp add: update_full Let_def played_rule [symmetric] event_fires_def [abs_def] cong: if_cong)

theorem update_event_rule_witness:
  "sequencerRunning two_events
   \<and> map_option midi_out (update 1250 two_events) = Some [0xC0, 0, 0x90, 60, 100, 0x90, 64, 100]
   \<and> map_option (\<lambda>s. (played (tracks s 0 0), played (tracks s 0 1))) (update 1000 two_events)
       = Some (True, False)"
proof -
  have r: "sequencerRunning two_events" by code_simp
  have a: "map_option midi_out (update 1250 two_events) = Some [0xC0, 0, 0x90, 60, 100, 0x90, 64, 100]"
    unfolding update_event_rule [OF r] by code_simp
  have b: "map_option (\<lambda>s. (played (tracks s 0 0), played (tracks s 0 1))) (update 1000 two_events)
       = Some (True, False)"
    unfolding update_event_rule [OF r] by code_simp
  from r a b show ?thesis by simp
qed

text \<open>
  \<^bold>\<open>Claim C3\<close>. In every update call the voice expiry runs first and on the whole pool:
  the first loop of \<^verbatim>\<open>update\<close> is \<open>expireDue\<close>, and the event loops start from
  \<open>expireDue now s\<close>, the state in which every active slot with due time \<open>\<le> now\<close> is inactive
  and its note-off is sent, so those note-offs precede every byte the events send. When the
  sequencer is stopped the call is the expiry alone.
\<close>

theorem voice_offs_before_events:
  "\<exists>s' bytes.
      update now s = Some s'
    \<and> update_voice_offs 0 now s = expireDue now s
    \<and> s' = (if sequencerRunning s
            then update_tracks now ((now - sequencerStartMs s) mod patternLength s) 0 (expireDue now s)
            else expireDue now s)
    \<and> (if sequencerRunning s
        then update_tracks now ((now - sequencerStartMs s) mod patternLength s) 0 (expireDue now s)
        else expireDue now s)
       = (if sequencerRunning s
          then foldl (\<lambda>a (t, i). update_event now ((now - sequencerStartMs s) mod patternLength s) t i a)
                 (expireDue now s) (stored_events s)
          else expireDue now s)
    \<and> midi_out s' =
        midi_out s
        @ concat (map (\<lambda>v. note_off_bytes (voices s v))
                    (filter (\<lambda>v. voice_due now (voices s v)) [0..<SEQ_MAX_VOICES]))
        @ bytes"
proof -
  let ?pos = "(now - sequencerStartMs s) mod patternLength s"
  let ?s' = "if sequencerRunning s then update_tracks now ?pos 0 (expireDue now s) else expireDue now s"
  have fold: "update_tracks now ?pos 0 (expireDue now s)
            = foldl (\<lambda>a (t, i). update_event now ?pos t i a) (expireDue now s) (stored_events s)"
    by (simp add: update_tracks_as_fold stored_events_cong [of "expireDue now s" s] expireDue_fields)
  obtain b where b: "midi_out (foldl (\<lambda>a (t, i). update_event now ?pos t i a) (expireDue now s) (stored_events s))
                   = midi_out (expireDue now s) @ b"
    using foldl_update_event_midi_out by blast
  have out: "midi_out ?s' = midi_out s
        @ concat (map (\<lambda>v. note_off_bytes (voices s v))
                    (filter (\<lambda>v. voice_due now (voices s v)) [0..<SEQ_MAX_VOICES]))
        @ (if sequencerRunning s then b else [])"
    by (simp add: fold b) (simp add: expireDue_def)
  show ?thesis
  proof (intro exI conjI)
    show "update now s = Some ?s'"
      by (rule update_eq)
    show "update_voice_offs 0 now s = expireDue now s"
      by (rule update_voice_offs_eq)
    show "?s' = ?s'"
      by (rule refl)
    show "?s' = (if sequencerRunning s
          then foldl (\<lambda>a (t, i). update_event now ?pos t i a) (expireDue now s) (stored_events s)
          else expireDue now s)"
      by (simp add: fold)
    show "midi_out ?s' = midi_out s
        @ concat (map (\<lambda>v. note_off_bytes (voices s v))
                    (filter (\<lambda>v. voice_due now (voices s v)) [0..<SEQ_MAX_VOICES]))
        @ (if sequencerRunning s then b else [])"
      by (rule out)
  qed
qed

text \<open>
  \<^bold>\<open>Claim C4\<close>. \<^verbatim>\<open>scheduleVoiceOff\<close> takes the first inactive slot of the 32: if slot \<open>v\<close> is
  inactive and all slots below it are active, slot \<open>v\<close> becomes active with the given
  channel, note and due time and nothing else changes. If all 32 slots are active the call
  returns the state unchanged, so a later expiry treats the pool exactly as if the call had
  not been made. \<^verbatim>\<open>scheduleVoiceOff\<close> is what \<^verbatim>\<open>playNoteAsync\<close> and the firing branch of
  \<^verbatim>\<open>update\<close> call after their note-on (\<open>playNoteAsync_def\<close>, \<open>update_event_def\<close>).
\<close>

theorem scheduleVoiceOff_first_fit:
  "(v < SEQ_MAX_VOICES \<and> \<not> active (voices s v) \<and> (\<forall>w<v. active (voices s w)) \<longrightarrow>
      scheduleVoiceOff chan n off s =
        s\<lparr>voices := (voices s)(v := \<lparr>active = True, vchannel = chan, vnote = n, offTimeMs = off\<rparr>)\<rparr>)
   \<and> ((\<forall>v<SEQ_MAX_VOICES. active (voices s v)) \<longrightarrow>
        scheduleVoiceOff chan n off s = s
      \<and> (\<forall>now'. update_voice_offs 0 now' (scheduleVoiceOff chan n off s) = expireDue now' s))"
proof (intro conjI impI)
  assume h: "v < SEQ_MAX_VOICES \<and> \<not> active (voices s v) \<and> (\<forall>w<v. active (voices s w))"
  then have "find (\<lambda>w. \<not> active (voices s w)) [0..<SEQ_MAX_VOICES] = Some v"
    by (intro find_first_free) simp_all
  then show "scheduleVoiceOff chan n off s =
        s\<lparr>voices := (voices s)(v := \<lparr>active = True, vchannel = chan, vnote = n, offTimeMs = off\<rparr>)\<rparr>"
    by (simp add: scheduleVoiceOff_eq new_voice_record)
next
  assume h: "\<forall>v<SEQ_MAX_VOICES. active (voices s v)"
  then have "find (\<lambda>w. \<not> active (voices s w)) [0..<SEQ_MAX_VOICES] = None"
    by (intro find_no_free) simp
  then show same: "scheduleVoiceOff chan n off s = s"
    by (simp add: scheduleVoiceOff_eq)
  show "\<forall>now'. update_voice_offs 0 now' (scheduleVoiceOff chan n off s) = expireDue now' s"
    by (simp add: same update_voice_offs_eq)
qed

theorem scheduleVoiceOff_first_fit_witness:
  "(2::nat) < SEQ_MAX_VOICES \<and> \<not> active (voices two_voices 2)
   \<and> active (voices two_voices 0) \<and> active (voices two_voices 1)
   \<and> scheduleVoiceOff 2 62 3000 two_voices
       = two_voices\<lparr>voices := (voices two_voices)
            (2 := \<lparr>active = True, vchannel = 2, vnote = 62, offTimeMs = 3000\<rparr>)\<rparr>
   \<and> active (voices full_pool 0) \<and> active (voices full_pool 31)
   \<and> scheduleVoiceOff 2 62 3000 full_pool = full_pool
   \<and> update_voice_offs 0 5000 (scheduleVoiceOff 2 62 3000 full_pool) = expireDue 5000 full_pool"
proof -
  have a: "\<not> active (voices two_voices 2)" "active (voices two_voices 0)" "active (voices two_voices 1)"
    by code_simp+
  have below: "\<forall>w<2. active (voices two_voices w)"
    using a by (auto simp add: less_Suc_eq numeral_2_eq_2)
  have full: "\<forall>v<SEQ_MAX_VOICES. active (voices full_pool v)"
    by (simp add: full_pool_def)
  from scheduleVoiceOff_first_fit [of 2 two_voices 2 62 3000] a below
  have one: "scheduleVoiceOff 2 62 3000 two_voices
       = two_voices\<lparr>voices := (voices two_voices)
            (2 := \<lparr>active = True, vchannel = 2, vnote = 62, offTimeMs = 3000\<rparr>)\<rparr>"
    by simp
  note failed = scheduleVoiceOff_first_fit [of 0 full_pool 2 62 3000, THEN conjunct2, THEN mp, OF full]
  have two: "scheduleVoiceOff 2 62 3000 full_pool = full_pool"
    "update_voice_offs 0 5000 (scheduleVoiceOff 2 62 3000 full_pool) = expireDue 5000 full_pool"
    using failed by blast+
  from a one two full show ?thesis by simp
qed

text \<open>
  \<^bold>\<open>Claim C5\<close>. For a channel in 0..15 and an instrument in 0..127, \<^verbatim>\<open>setInstrument\<close>
  sends the program change (status \<open>0xC0 OR channel\<close>, then the instrument) exactly when the
  channel's cache entry differs from the instrument or is the unset value 255, and then
  stores the instrument in the entry; otherwise it changes nothing. The entry of any other
  channel is neither written nor read: it keeps its value, and changing it before the call
  or after it gives the same state.
\<close>

theorem setInstrument_cache:
  assumes "chan \<le> 15" and "instr \<le> 127"
  shows "setInstrument chan instr s =
           (if lastChannelInstrument s (unat chan) \<noteq> instr \<or> lastChannelInstrument s (unat chan) = 255
            then s\<lparr>midi_out := midi_out s @ [0xC0 OR chan, instr],
                   lastChannelInstrument := (lastChannelInstrument s)(unat chan := instr)\<rparr>
            else s)
       \<and> (\<forall>c x. c \<noteq> unat chan \<longrightarrow>
              lastChannelInstrument (setInstrument chan instr s) c = lastChannelInstrument s c
            \<and> setInstrument chan instr (s\<lparr>lastChannelInstrument := (lastChannelInstrument s)(c := x)\<rparr>)
                = (setInstrument chan instr s)
                    \<lparr>lastChannelInstrument := (lastChannelInstrument (setInstrument chan instr s))(c := x)\<rparr>)"
proof -
  have ch: "chan AND 0x0F = chan"
    using assms(1) by (rule low_channel)
  have ne: "instr \<noteq> 255"
    using assms(2) by auto
  show ?thesis
    using ne by (auto simp add: setInstrument_eq ch fun_upd_twist)
qed

theorem setInstrument_cache_witness:
  "(3::u8) \<le> 15 \<and> (5::u8) \<le> 127
   \<and> lastChannelInstrument fresh_engine (unat (3::u8)) = 255
   \<and> midi_out (setInstrument 3 5 fresh_engine) = [0xC3, 5]
   \<and> lastChannelInstrument (setInstrument 3 5 fresh_engine) (unat (3::u8)) = 5
   \<and> setInstrument 3 5 (setInstrument 3 5 fresh_engine) = setInstrument 3 5 fresh_engine
   \<and> midi_out (setInstrument 3 6 (setInstrument 3 5 fresh_engine)) = [0xC3, 5, 0xC3, 6]
   \<and> lastChannelInstrument (setInstrument 3 5 fresh_engine) 4 = lastChannelInstrument fresh_engine 4"
proof -
  have h: "(3::u8) \<le> 15" "(5::u8) \<le> 127" "(6::u8) \<le> 127" by simp_all
  note first = setInstrument_cache [OF h(1) h(2), of fresh_engine]
  note again = setInstrument_cache [OF h(1) h(2), of "setInstrument 3 5 fresh_engine"]
  note other = setInstrument_cache [OF h(1) h(3), of "setInstrument 3 5 fresh_engine"]
  have unset: "lastChannelInstrument fresh_engine (unat (3::u8)) = 255"
    and out0: "midi_out fresh_engine = []"
    by code_simp+
  have c3: "(0xC0::u8) OR 3 = 0xC3" by simp
  from first unset out0 have s1: "setInstrument 3 5 fresh_engine
      = fresh_engine\<lparr>midi_out := [0xC3, 5],
                      lastChannelInstrument := (lastChannelInstrument fresh_engine)(unat (3::u8) := 5)\<rparr>"
    by (simp add: c3)
  have m1: "midi_out (setInstrument 3 5 fresh_engine) = [0xC3, 5]"
    and l1: "lastChannelInstrument (setInstrument 3 5 fresh_engine) (unat (3::u8)) = 5"
    by (simp_all add: s1)
  from again l1 have s2: "setInstrument 3 5 (setInstrument 3 5 fresh_engine) = setInstrument 3 5 fresh_engine"
    by simp
  from other l1 m1 have m3: "midi_out (setInstrument 3 6 (setInstrument 3 5 fresh_engine)) = [0xC3, 5, 0xC3, 6]"
    by (simp add: c3)
  from first have o: "lastChannelInstrument (setInstrument 3 5 fresh_engine) 4 = lastChannelInstrument fresh_engine 4"
    by simp
  from h unset m1 l1 s2 m3 o show ?thesis by simp
qed

text \<open>
  \<^bold>\<open>Claim C6\<close> (the track's derived loop length is the maximum of \<open>offset + duration\<close>
  over its stored events), as amended. From the constructor, or from a \<^verbatim>\<open>clearTrack\<close> of
  the track, whatever calls follow (they all return), the track's loop length is the maximum
  over its stored events of \<open>(offset + duration) mod 2^32\<close>, the sum as \<^verbatim>\<open>addEvent\<close>
  computes it in \<^verbatim>\<open>uint32_t\<close>. It is the maximum of \<open>offset + duration\<close> itself where
  \<open>offset + duration < 2^32\<close> for every stored event of the track.
\<close>

theorem derived_loop_length:
  assumes "(s0 = VS1053_MIDI_new mem \<and> t < SEQ_MAX_TRACKS)
         \<or> (s0 = clearTrack track s \<and> t = unat track \<and> t < SEQ_MAX_TRACKS)"
  shows "\<exists>s'. run calls s0 = Some s'
          \<and> trackLoopLengthMs s' t = wrapped_length s' t
          \<and> unat (trackLoopLengthMs s' t)
              = Max (set (0 # map (\<lambda>i. (unat (timeOffsetMs (tracks s' t i))
                                         + unat (durationMs (tracks s' t i))) mod 2 ^ 32)
                                [0..<unat (trackEventCount s' t)]))
          \<and> ((\<forall>i<unat (trackEventCount s' t).
                 unat (timeOffsetMs (tracks s' t i)) + unat (durationMs (tracks s' t i)) < 2 ^ 32) \<longrightarrow>
               unat (trackLoopLengthMs s' t) = derived_length s' t)"
proof -
  have mod_level: "unat (trackLoopLengthMs s' t)
              = Max (set (0 # map (\<lambda>i. (unat (timeOffsetMs (tracks s' t i))
                                         + unat (durationMs (tracks s' t i))) mod 2 ^ 32)
                                [0..<unat (trackEventCount s' t)]))"
    if inv: "trackLoopLengthMs s' t = wrapped_length s' t" for s'
  proof -
    have "map unat (map (\<lambda>i. timeOffsetMs (tracks s' t i) + durationMs (tracks s' t i))
                     [0..<unat (trackEventCount s' t)])
        = map (\<lambda>i. (unat (timeOffsetMs (tracks s' t i)) + unat (durationMs (tracks s' t i))) mod 2 ^ 32)
                     [0..<unat (trackEventCount s' t)]"
      by (simp add: unat_word_ariths)
    then show ?thesis
      unfolding inv wrapped_length_def unat_Max_set by simp
  qed
  have nat_level: "unat (trackLoopLengthMs s' t) = derived_length s' t"
    if inv: "trackLoopLengthMs s' t = wrapped_length s' t"
    and small: "\<forall>i<unat (trackEventCount s' t).
                 unat (timeOffsetMs (tracks s' t i)) + unat (durationMs (tracks s' t i)) < 2 ^ 32"
    for s'
  proof -
    have "map (\<lambda>i. (unat (timeOffsetMs (tracks s' t i)) + unat (durationMs (tracks s' t i))) mod 2 ^ 32)
                     [0..<unat (trackEventCount s' t)]
        = map (\<lambda>i. unat (timeOffsetMs (tracks s' t i)) + unat (durationMs (tracks s' t i)))
                     [0..<unat (trackEventCount s' t)]"
      using small by simp
    then show ?thesis
      unfolding mod_level [OF inv] derived_length_def by simp
  qed
  have "trackEventCount s0 t = 0 \<and> trackLoopLengthMs s0 t = 0"
    using assms by (auto simp add: VS1053_MIDI_new_eq clearTrack_def)
  then have "trackLoopLengthMs s0 t = wrapped_length s0 t"
    by (simp add: wrapped_length_def)
  from run_wrapped_length [OF this, of calls] obtain s' where
    run: "run calls s0 = Some s'" and inv: "trackLoopLengthMs s' t = wrapped_length s' t"
    by blast
  show ?thesis
  proof (intro exI conjI impI)
    show "run calls s0 = Some s'" by (rule run)
    show "trackLoopLengthMs s' t = wrapped_length s' t" by (rule inv)
    show "unat (trackLoopLengthMs s' t)
              = Max (set (0 # map (\<lambda>i. (unat (timeOffsetMs (tracks s' t i))
                                         + unat (durationMs (tracks s' t i))) mod 2 ^ 32)
                                [0..<unat (trackEventCount s' t)]))"
      by (rule mod_level [OF inv])
    show "unat (trackLoopLengthMs s' t) = derived_length s' t"
      if "\<forall>i<unat (trackEventCount s' t).
                 unat (timeOffsetMs (tracks s' t i)) + unat (durationMs (tracks s' t i)) < 2 ^ 32"
      using that by (rule nat_level [OF inv])
  qed
qed

theorem derived_loop_length_witness:
  "fresh_engine = VS1053_MIDI_new zero_mem \<and> (0::nat) < SEQ_MAX_TRACKS
   \<and> (\<exists>s'. run demo_calls fresh_engine = Some s'
         \<and> unat (trackEventCount s' 0) = 2
         \<and> timeOffsetMs (tracks s' 0 0) = 0 \<and> durationMs (tracks s' 0 0) = 500
         \<and> timeOffsetMs (tracks s' 0 (Suc 0)) = 250 \<and> durationMs (tracks s' 0 (Suc 0)) = 250
         \<and> derived_length s' 0 = 500
         \<and> unat (trackLoopLengthMs s' 0) = 500)
   \<and> (0::nat) = unat (0::u8)
   \<and> (\<exists>s'. run [AddEvent 0 4294967295 0 0 60 100 2] (clearTrack 0 played_mem) = Some s'
         \<and> unat (trackEventCount s' 0) = 1
         \<and> timeOffsetMs (tracks s' 0 0) = 4294967295 \<and> durationMs (tracks s' 0 0) = 2
         \<and> (4294967295 + 2) mod 2 ^ 32 = (1::nat)
         \<and> unat (trackLoopLengthMs s' 0) = 1)"
proof -
  have h: "(fresh_engine = VS1053_MIDI_new zero_mem \<and> (0::nat) < SEQ_MAX_TRACKS)
         \<or> (fresh_engine = clearTrack 0 zero_mem \<and> (0::nat) = unat (0::u8) \<and> (0::nat) < SEQ_MAX_TRACKS)"
    by (simp add: fresh_engine_def)
  from derived_loop_length [OF h, of demo_calls] obtain s' where
    run: "run demo_calls fresh_engine = Some s'"
    and nat: "(\<forall>i<unat (trackEventCount s' 0).
                 unat (timeOffsetMs (tracks s' 0 i)) + unat (durationMs (tracks s' 0 i)) < 2 ^ 32) \<longrightarrow>
               unat (trackLoopLengthMs s' 0) = derived_length s' 0"
    by blast
  have ev: "map_option (\<lambda>s. (trackEventCount s 0, timeOffsetMs (tracks s 0 0), durationMs (tracks s 0 0),
                              timeOffsetMs (tracks s 0 (Suc 0)), durationMs (tracks s 0 (Suc 0))))
              (run demo_calls fresh_engine) = Some (2, 0, 500, 250, 250)"
    by code_simp
  then have cnt: "trackEventCount s' 0 = 2"
    and e0: "timeOffsetMs (tracks s' 0 0) = 0" "durationMs (tracks s' 0 0) = 500"
    and e1: "timeOffsetMs (tracks s' 0 (Suc 0)) = 250" "durationMs (tracks s' 0 (Suc 0)) = 250"
    by (simp_all add: run)
  have upt2: "[0..<2] = [0, Suc 0]"
    by (simp add: upt_conv_Cons)
  have dl: "derived_length s' 0 = 500"
    by (simp add: derived_length_def cnt e0 e1 upt2)
  have small: "\<forall>i<unat (trackEventCount s' 0).
                 unat (timeOffsetMs (tracks s' 0 i)) + unat (durationMs (tracks s' 0 i)) < 2 ^ 32"
  proof (intro allI impI)
    fix i
    assume "i < unat (trackEventCount s' 0)"
    then have "i < 2" by (simp add: cnt)
    then have "i = 0 \<or> i = Suc 0" by arith
    then show "unat (timeOffsetMs (tracks s' 0 i)) + unat (durationMs (tracks s' 0 i)) < 2 ^ 32"
      by (auto simp add: e0 e1)
  qed
  from nat small dl have "unat (trackLoopLengthMs s' 0) = 500"
    by simp
  with run cnt e0 e1 dl have constructed:
    "\<exists>s'. run demo_calls fresh_engine = Some s'
         \<and> unat (trackEventCount s' 0) = 2
         \<and> timeOffsetMs (tracks s' 0 0) = 0 \<and> durationMs (tracks s' 0 0) = 500
         \<and> timeOffsetMs (tracks s' 0 (Suc 0)) = 250 \<and> durationMs (tracks s' 0 (Suc 0)) = 250
         \<and> derived_length s' 0 = 500
         \<and> unat (trackLoopLengthMs s' 0) = 500"
    by auto
  have h2: "(clearTrack 0 played_mem = VS1053_MIDI_new zero_mem \<and> (0::nat) < SEQ_MAX_TRACKS)
         \<or> (clearTrack 0 played_mem = clearTrack 0 played_mem \<and> (0::nat) = unat (0::u8)
             \<and> (0::nat) < SEQ_MAX_TRACKS)"
    by simp
  from derived_loop_length [OF h2, of "[AddEvent 0 4294967295 0 0 60 100 2]"] obtain s2 where
    run2: "run [AddEvent 0 4294967295 0 0 60 100 2] (clearTrack 0 played_mem) = Some s2"
    and mod2: "unat (trackLoopLengthMs s2 0)
              = Max (set (0 # map (\<lambda>i. (unat (timeOffsetMs (tracks s2 0 i))
                                         + unat (durationMs (tracks s2 0 i))) mod 2 ^ 32)
                                [0..<unat (trackEventCount s2 0)]))"
    by blast
  have ev2: "map_option (\<lambda>s. (trackEventCount s 0, timeOffsetMs (tracks s 0 0), durationMs (tracks s 0 0)))
          (run [AddEvent 0 4294967295 0 0 60 100 2] (clearTrack 0 played_mem))
          = Some (1, 4294967295, 2)"
    by code_simp
  have cnt2: "trackEventCount s2 0 = 1"
    and e2: "timeOffsetMs (tracks s2 0 0) = 4294967295" "durationMs (tracks s2 0 0) = 2"
    using ev2 unfolding run2 by simp_all
  have wrap: "(4294967295 + 2) mod 2 ^ 32 = (1::nat)"
    by simp
  have "unat (trackLoopLengthMs s2 0) = 1"
    unfolding mod2 by (simp add: cnt2 e2)
  with run2 cnt2 e2 wrap have cleared:
    "\<exists>s'. run [AddEvent 0 4294967295 0 0 60 100 2] (clearTrack 0 played_mem) = Some s'
         \<and> unat (trackEventCount s' 0) = 1
         \<and> timeOffsetMs (tracks s' 0 0) = 4294967295 \<and> durationMs (tracks s' 0 0) = 2
         \<and> (4294967295 + 2) mod 2 ^ 32 = (1::nat)
         \<and> unat (trackLoopLengthMs s' 0) = 1"
    by simp
  from constructed cleared show ?thesis
    by (simp add: fresh_engine_def)
qed

text \<open>
  Claim C6 as first stated (with the plain sum) fails on \<open>overflow_event\<close>: after
  \<^verbatim>\<open>clearTrack(0)\<close> and a successful \<^verbatim>\<open>addEvent(0, 4294967295, 0, 0, 60, 100, 2)\<close> the
  track holds that one event, the maximum of \<open>offset + duration\<close> is 4294967297, and the
  track's loop length is 1, below the event's own offset.
\<close>

theorem derived_loop_length_counterexample:
  "fst (addEvent 0 4294967295 0 0 60 100 2 (clearTrack 0 fresh_engine)) = True
   \<and> unat (trackEventCount overflow_event 0) = 1
   \<and> timeOffsetMs (tracks overflow_event 0 0) = 4294967295
   \<and> durationMs (tracks overflow_event 0 0) = 2
   \<and> derived_length overflow_event 0 = 4294967297
   \<and> unat (trackLoopLengthMs overflow_event 0) = 1
   \<and> unat (trackLoopLengthMs overflow_event 0) \<noteq> derived_length overflow_event 0"
proof -
  have a: "fst (addEvent 0 4294967295 0 0 60 100 2 (clearTrack 0 fresh_engine)) = True"
    and c: "trackEventCount overflow_event 0 = 1"
    and e: "timeOffsetMs (tracks overflow_event 0 0) = 4294967295"
      "durationMs (tracks overflow_event 0 0) = 2"
    and l: "trackLoopLengthMs overflow_event 0 = 1"
    by code_simp+
  have d: "derived_length overflow_event 0 = 4294967297"
    by (simp add: derived_length_def c e)
  from a c e l d show ?thesis by simp
qed

text \<open>
  \<^bold>\<open>Claim C7\<close>. \<^verbatim>\<open>addEvent\<close> returns false and the state unchanged when the track index
  is \<open>\<ge> 8\<close> or the track holds 128 events. Otherwise it returns true; the event is stored at
  the end of the track (index = old count) with its flag clear, the count grows by one, the
  track's loop length becomes the maximum of its old value and \<open>offset + duration\<close>, the
  other events of the track, the other tracks and every other field are as before.
\<close>

theorem addEvent_contract:
  "(unat track \<ge> SEQ_MAX_TRACKS \<or> unat (trackEventCount s (unat track)) \<ge> SEQ_MAX_EVENTS \<longrightarrow>
      addEvent track off chan instr n vel dur s = (False, s))
   \<and> (unat track < SEQ_MAX_TRACKS \<and> unat (trackEventCount s (unat track)) < SEQ_MAX_EVENTS \<longrightarrow>
       (\<exists>s'. addEvent track off chan instr n vel dur s = (True, s')
          \<and> unat (trackEventCount s' (unat track)) = unat (trackEventCount s (unat track)) + 1
          \<and> tracks s' (unat track) (unat (trackEventCount s (unat track)))
              = \<lparr>timeOffsetMs = off, channel = chan, inst = instr, note = n, velocity = vel,
                 durationMs = dur, played = False\<rparr>
          \<and> (\<forall>i. i \<noteq> unat (trackEventCount s (unat track)) \<longrightarrow>
                tracks s' (unat track) i = tracks s (unat track) i)
          \<and> trackLoopLengthMs s' (unat track) = max (trackLoopLengthMs s (unat track)) (off + dur)
          \<and> (\<forall>t'. t' \<noteq> unat track \<longrightarrow>
                tracks s' t' = tracks s t' \<and> trackEventCount s' t' = trackEventCount s t'
              \<and> trackLoopLengthMs s' t' = trackLoopLengthMs s t')
          \<and> s'\<lparr>tracks := tracks s, trackEventCount := trackEventCount s,
                trackLoopLengthMs := trackLoopLengthMs s\<rparr> = s))"
proof (intro conjI impI)
  assume "unat track \<ge> SEQ_MAX_TRACKS \<or> unat (trackEventCount s (unat track)) \<ge> SEQ_MAX_EVENTS"
  then show "addEvent track off chan instr n vel dur s = (False, s)"
    by (auto simp add: addEvent_def)
next
  assume ok: "unat track < SEQ_MAX_TRACKS \<and> unat (trackEventCount s (unat track)) < SEQ_MAX_EVENTS"
  let ?t = "unat track"
  let ?c = "trackEventCount s ?t"
  have "unat ?c + unat (1 :: u16) < 2 ^ LENGTH(16)"
    using ok by simp
  then have inc: "unat (?c + 1) = unat ?c + 1"
    by (simp add: unat_add_lem [THEN iffD1])
  have ev: "(e :: SeqEvent)\<lparr>timeOffsetMs := off, channel := chan, inst := instr, note := n,
               velocity := vel, durationMs := dur, played := False\<rparr>
          = \<lparr>timeOffsetMs = off, channel = chan, inst = instr, note = n, velocity = vel,
                 durationMs = dur, played = False\<rparr>" for e
    by (cases e) simp
  show "\<exists>s'. addEvent track off chan instr n vel dur s = (True, s')
          \<and> unat (trackEventCount s' (unat track)) = unat (trackEventCount s (unat track)) + 1
          \<and> tracks s' (unat track) (unat (trackEventCount s (unat track)))
              = \<lparr>timeOffsetMs = off, channel = chan, inst = instr, note = n, velocity = vel,
                 durationMs = dur, played = False\<rparr>
          \<and> (\<forall>i. i \<noteq> unat (trackEventCount s (unat track)) \<longrightarrow>
                tracks s' (unat track) i = tracks s (unat track) i)
          \<and> trackLoopLengthMs s' (unat track) = max (trackLoopLengthMs s (unat track)) (off + dur)
          \<and> (\<forall>t'. t' \<noteq> unat track \<longrightarrow>
                tracks s' t' = tracks s t' \<and> trackEventCount s' t' = trackEventCount s t'
              \<and> trackLoopLengthMs s' t' = trackLoopLengthMs s t')
          \<and> s'\<lparr>tracks := tracks s, trackEventCount := trackEventCount s,
                trackLoopLengthMs := trackLoopLengthMs s\<rparr> = s"
    using ok inc by (auto simp add: addEvent_def Let_def ev max_def)
qed

theorem addEvent_contract_witness:
  "unat (0::u8) < SEQ_MAX_TRACKS \<and> unat (trackEventCount fresh_engine (unat (0::u8))) < SEQ_MAX_EVENTS
   \<and> (\<exists>s'. addEvent 0 10 1 2 60 100 90 fresh_engine = (True, s')
          \<and> unat (trackEventCount s' (unat (0::u8))) = 1
          \<and> tracks s' (unat (0::u8)) 0
              = \<lparr>timeOffsetMs = 10, channel = 1, inst = 2, note = 60, velocity = 100,
                 durationMs = 90, played = False\<rparr>
          \<and> trackLoopLengthMs s' (unat (0::u8)) = 100
          \<and> trackEventCount s' 1 = trackEventCount fresh_engine 1)
   \<and> SEQ_MAX_TRACKS \<le> unat (8::u8)
   \<and> addEvent 8 10 1 2 60 100 90 fresh_engine = (False, fresh_engine)
   \<and> SEQ_MAX_EVENTS \<le> unat (trackEventCount full_track (unat (0::u8)))
   \<and> addEvent 0 10 1 2 60 100 90 full_track = (False, full_track)"
proof -
  have c0: "trackEventCount fresh_engine 0 = 0"
    and l0: "trackLoopLengthMs fresh_engine 0 = 0"
    by code_simp+
  have ok: "unat (0::u8) < SEQ_MAX_TRACKS \<and> unat (trackEventCount fresh_engine (unat (0::u8))) < SEQ_MAX_EVENTS"
    by (simp add: c0)
  have bad1: "SEQ_MAX_TRACKS \<le> unat (8::u8)" by simp
  have bad2: "SEQ_MAX_EVENTS \<le> unat (trackEventCount full_track (unat (0::u8)))"
    by (simp add: full_track_def)
  note good = addEvent_contract [of 0 fresh_engine 10 1 2 60 100 90, THEN conjunct2, THEN mp, OF ok]
  note f1 = addEvent_contract [of 8 fresh_engine 10 1 2 60 100 90, THEN conjunct1, THEN mp, OF disjI1, OF bad1]
  note f2 = addEvent_contract [of 0 full_track 10 1 2 60 100 90, THEN conjunct1, THEN mp, OF disjI2, OF bad2]
  from good obtain s' where
    "addEvent 0 10 1 2 60 100 90 fresh_engine = (True, s')"
    "unat (trackEventCount s' (unat (0::u8))) = unat (trackEventCount fresh_engine (unat (0::u8))) + 1"
    "tracks s' (unat (0::u8)) (unat (trackEventCount fresh_engine (unat (0::u8))))
              = \<lparr>timeOffsetMs = 10, channel = 1, inst = 2, note = 60, velocity = 100,
                 durationMs = 90, played = False\<rparr>"
    "trackLoopLengthMs s' (unat (0::u8)) = max (trackLoopLengthMs fresh_engine (unat (0::u8))) (10 + 90)"
    "\<forall>t'. t' \<noteq> unat (0::u8) \<longrightarrow>
                tracks s' t' = tracks fresh_engine t' \<and> trackEventCount s' t' = trackEventCount fresh_engine t'
              \<and> trackLoopLengthMs s' t' = trackLoopLengthMs fresh_engine t'"
    by blast
  then have "\<exists>s'. addEvent 0 10 1 2 60 100 90 fresh_engine = (True, s')
          \<and> unat (trackEventCount s' (unat (0::u8))) = 1
          \<and> tracks s' (unat (0::u8)) 0
              = \<lparr>timeOffsetMs = 10, channel = 1, inst = 2, note = 60, velocity = 100,
                 durationMs = 90, played = False\<rparr>
          \<and> trackLoopLengthMs s' (unat (0::u8)) = 100
          \<and> trackEventCount s' 1 = trackEventCount fresh_engine 1"
    by (intro exI [of _ s']) (simp add: c0 l0)
  with ok bad1 bad2 f1 f2 show ?thesis by blast
qed

text \<open>
  \<^bold>\<open>Claim C8\<close>. \<^verbatim>\<open>startSequencer\<close>, in any state, records the start time \<open>now\<close>, sets the
  running flag, stores the loop length and clears the flag of every stored event of every
  track; nothing else changes.
\<close>

theorem startSequencer_resets:
  "startSequencer now loopMs s =
     s\<lparr>sequencerStartMs := now, sequencerRunning := True, globalLoopMs := loopMs,
       tracks := (\<lambda>t i. if t < SEQ_MAX_TRACKS \<and> i < unat (trackEventCount s t)
                         then (tracks s t i)\<lparr>played := False\<rparr> else tracks s t i)\<rparr>
   \<and> (\<forall>t<SEQ_MAX_TRACKS. \<forall>i<unat (trackEventCount (startSequencer now loopMs s) t).
         \<not> played (tracks (startSequencer now loopMs s) t i))"
  by (simp add: startSequencer_eq)

theorem startSequencer_resets_witness:
  "(1::nat) < SEQ_MAX_TRACKS \<and> 1 < unat (trackEventCount (startSequencer 7 0 played_mem) 1)
   \<and> played (tracks played_mem 1 1) \<and> sequencerRunning played_mem
   \<and> \<not> played (tracks (startSequencer 7 0 played_mem) 1 1)
   \<and> sequencerStartMs (startSequencer 7 0 played_mem) = 7
   \<and> globalLoopMs (startSequencer 7 0 played_mem) = 0
   \<and> sequencerRunning (startSequencer 7 0 played_mem)"
proof -
  note inst = startSequencer_resets [of 7 0 played_mem]
  have eq: "startSequencer 7 0 played_mem =
     played_mem\<lparr>sequencerStartMs := 7, sequencerRunning := True, globalLoopMs := 0,
       tracks := (\<lambda>t i. if t < SEQ_MAX_TRACKS \<and> i < unat (trackEventCount played_mem t)
                         then (tracks played_mem t i)\<lparr>played := False\<rparr> else tracks played_mem t i)\<rparr>"
    using inst by (rule conjunct1)
  have c: "1 < unat (trackEventCount (startSequencer 7 0 played_mem) 1)"
    by (simp add: eq) (simp add: played_mem_def)
  have before: "played (tracks played_mem 1 1)" "sequencerRunning played_mem"
    by (simp_all add: played_mem_def zero_mem_def)
  from inst c have "\<not> played (tracks (startSequencer 7 0 played_mem) 1 1)"
    by simp
  moreover have "sequencerStartMs (startSequencer 7 0 played_mem) = 7"
    "globalLoopMs (startSequencer 7 0 played_mem) = 0"
    "sequencerRunning (startSequencer 7 0 played_mem)"
    by (simp_all add: eq)
  ultimately show ?thesis using c before by simp
qed

text \<open>
  \<^bold>\<open>Claim C9\<close>. The pattern length is never 0: it is the configured loop length when that
  is positive, otherwise the longest track length, or 1 when that is 0. So the remainder
  in \<^verbatim>\<open>update\<close> is defined, the position is strictly below the pattern length, and
  \<^verbatim>\<open>update\<close> always returns.
\<close>

theorem patternLength_guard:
  "patternLength s \<noteq> 0
   \<and> patternLength s =
       (if globalLoopMs s > 0 then globalLoopMs s
        else if Max (trackLoopLengthMs s ` {..<SEQ_MAX_TRACKS}) = 0 then 1
        else Max (trackLoopLengthMs s ` {..<SEQ_MAX_TRACKS}))
   \<and> umod32 (now - sequencerStartMs s) (patternLength s)
       = Some ((now - sequencerStartMs s) mod patternLength s)
   \<and> (now - sequencerStartMs s) mod patternLength s < patternLength s
   \<and> update now s =
       Some (if sequencerRunning s
             then update_tracks now ((now - sequencerStartMs s) mod patternLength s) 0
                    (update_voice_offs 0 now s)
             else update_voice_offs 0 now s)"
proof -
  have nz: "patternLength s \<noteq> 0" by (rule patternLength_nonzero)
  then have "0 < patternLength s" by (simp add: word_neq_0_conv)
  then have lt: "(now - sequencerStartMs s) mod patternLength s < patternLength s"
    by (rule word_mod_less_divisor)
  have md: "umod32 (now - sequencerStartMs s) (patternLength s)
       = Some ((now - sequencerStartMs s) mod patternLength s)"
    using nz by (simp add: umod32_def)
  have up: "update now s =
       Some (if sequencerRunning s
             then update_tracks now ((now - sequencerStartMs s) mod patternLength s) 0
                    (update_voice_offs 0 now s)
             else update_voice_offs 0 now s)"
    by (simp add: update_eq update_voice_offs_eq)
  from nz patternLength_eq [of s] md lt up show ?thesis
    by (intro conjI)
qed

text \<open>
  \<^bold>\<open>Claim C10\<close>. While the sequencer runs, a stored event whose offset is at or beyond
  the pattern length is not fired by an update call: the call returns, the event's flag is
  clear afterwards, and apart from the flags the resulting state is the one obtained by
  firing only the other events. Whenever the loop body reaches the event with a position
  below the pattern length it does no more than clear the flag. The update keeps the
  sequencer running with the same pattern length, counts and offset, so the same holds for
  every later update: any series of updates returns, and leaves the event's flag clear.
\<close>

theorem late_event_never_fires:
  assumes "sequencerRunning s" and "t < SEQ_MAX_TRACKS" and "i < unat (trackEventCount s t)"
      and "patternLength s \<le> timeOffsetMs (tracks s t i)"
  shows "(\<exists>s'. update now s = Some s'
     \<and> s' = (foldl (\<lambda>a (t', i'). fire_event now (tracks s t' i') a) (expireDue now s)
                 (filter (\<lambda>(t', i'). event_fires ((now - sequencerStartMs s) mod patternLength s) (tracks s t' i'))
                    (removeAll (t, i) (stored_events s))))
               \<lparr>tracks := tracks s'\<rparr>
     \<and> \<not> played (tracks s' t i)
     \<and> (\<forall>a pos. pos < patternLength s \<and> timeOffsetMs (tracks a t i) = timeOffsetMs (tracks s t i) \<longrightarrow>
           update_event now pos t i a
             = a\<lparr>tracks := (tracks a)(t := (tracks a t)(i := (tracks a t i)\<lparr>played := False\<rparr>))\<rparr>)
     \<and> sequencerRunning s' \<and> patternLength s' = patternLength s
     \<and> trackEventCount s' = trackEventCount s
     \<and> timeOffsetMs (tracks s' t i) = timeOffsetMs (tracks s t i))
     \<and> (\<forall>nows. \<exists>s'. run (map Update nows) s = Some s'
            \<and> (nows \<noteq> [] \<longrightarrow> \<not> played (tracks s' t i)))"
  using late_event_step [OF assms, of now] late_event_updates [OF assms]
  by blast

theorem late_event_never_fires_witness:
  "sequencerRunning late_event \<and> (0::nat) < SEQ_MAX_TRACKS \<and> 0 < unat (trackEventCount late_event 0)
   \<and> patternLength late_event \<le> timeOffsetMs (tracks late_event 0 0)
   \<and> (\<exists>s'. update 1350 late_event = Some s' \<and> \<not> played (tracks s' 0 0) \<and> midi_out s' = [])"
proof -
  have h: "sequencerRunning late_event" "(0::nat) < SEQ_MAX_TRACKS"
    "0 < unat (trackEventCount late_event 0)"
    "patternLength late_event \<le> timeOffsetMs (tracks late_event 0 0)"
    by code_simp+
  from late_event_never_fires [OF h, of 1350] obtain s' where
    up: "update 1350 late_event = Some s'"
    and eq: "s' = (foldl (\<lambda>a (t', i'). fire_event 1350 (tracks late_event t' i') a) (expireDue 1350 late_event)
                 (filter (\<lambda>(t', i'). event_fires ((1350 - sequencerStartMs late_event) mod patternLength late_event)
                                       (tracks late_event t' i'))
                    (removeAll (0, 0) (stored_events late_event))))
               \<lparr>tracks := tracks s'\<rparr>"
    and np: "\<not> played (tracks s' 0 0)"
    by blast
  have "midi_out s' = midi_out (foldl (\<lambda>a (t', i'). fire_event 1350 (tracks late_event t' i') a) (expireDue 1350 late_event)
                 (filter (\<lambda>(t', i'). event_fires ((1350 - sequencerStartMs late_event) mod patternLength late_event)
                                       (tracks late_event t' i'))
                    (removeAll (0, 0) (stored_events late_event))))"
    by (subst eq) simp
  also have "\<dots> = []"
    by code_simp
  finally have "midi_out s' = []" .
  with h up np show ?thesis by blast
qed

end
